theory Spec2Isabelle
  imports Main "HOL-Library.Multiset"
begin

section \<open>The pattern matcher of patternMatch.cpp\<close>

text \<open>
  A shallow embedding of \<^verbatim>\<open>src/patternMatch.cpp\<close>: the helpers \<^verbatim>\<open>symbolIs\<close>,
  \<^verbatim>\<open>standardizePathSeparators\<close> and \<^verbatim>\<open>standardizePattern\<close>, the structs
  \<^verbatim>\<open>InputSymbol\<close>, \<^verbatim>\<open>Edge\<close> and \<^verbatim>\<open>Node\<close>, and the class
  \<^verbatim>\<open>SimpleStateMachine\<close> with \<^verbatim>\<open>setPattern\<close>, \<^verbatim>\<open>match\<close> and
  \<^verbatim>\<open>tryMatchPatternPart\<close>.

  Conventions. A \<^verbatim>\<open>std::string\<close> is a \<^typ>\<open>string\<close>; a C++ \<^verbatim>\<open>int\<close> is an
  \<^typ>\<open>int\<close> (node references, which take the negative sentinel values, and positions
  that the source compares with an unsigned length) or a \<^typ>\<open>nat\<close> (loop counters that
  start at 0 and only grow). No string of the model is long enough for a 32-bit
  \<^verbatim>\<open>int\<close> to overflow; where the source compares an \<^verbatim>\<open>int\<close> with the unsigned
  \<^verbatim>\<open>length()\<close>, a negative value converts to a huge unsigned one, which the model
  writes as an explicit test for \<open>< 0\<close>.
\<close>

subsection \<open>Constants and string access\<close>

definition ERROR_NODE_IDX :: int where
  "ERROR_NODE_IDX = - 1"

definition SUCCESS_NODE_IDX :: int where
  "SUCCESS_NODE_IDX = - 2"

definition PATH_SEPARATOR :: char where
  "PATH_SEPARATOR = CHR ''/''"

definition END_OF_LINE :: char where
  "END_OF_LINE = CHR 0x00"

text \<open>
  \<^verbatim>\<open>str[pos]\<close> of a \<^verbatim>\<open>std::string\<close>: the character at \<open>pos\<close>, and the terminating
  NUL at \<open>pos = length\<close>. Every read of the source is guarded by \<open>0 \<le> pos \<le> length\<close>;
  outside that range (undefined in C++) the model also answers NUL.
\<close>

definition string_at :: "string \<Rightarrow> int \<Rightarrow> char" where
  "string_at str pos =
     (if 0 \<le> pos \<and> pos < int (length str) then str ! nat pos else END_OF_LINE)"

definition symbolIs :: "string \<Rightarrow> int \<Rightarrow> char \<Rightarrow> bool" where
  "symbolIs str pos c =
     (if pos < 0 \<or> pos > int (length str) then False else string_at str pos = c)"

definition standardizePathSeparators :: "string \<Rightarrow> string" where
  "standardizePathSeparators s = map (\<lambda>c. if c = CHR 0x5C then CHR ''/'' else c) s"

text \<open>
  \<^verbatim>\<open>standardizePattern\<close> reads \<^verbatim>\<open>len\<close> once, before the prefix is added, and tests
  position \<open>len - 1\<close> of the pattern as it is after the prefix.
\<close>

definition standardizePattern :: "string \<Rightarrow> string" where
  "standardizePattern pattern =
     (let len = int (length pattern);
          pattern1 =
            (if \<not> symbolIs pattern 0 PATH_SEPARATOR
             then (if symbolIs pattern 0 (CHR ''*'') \<and> symbolIs pattern 1 (CHR ''*'')
                   then ''/'' @ pattern
                   else ''/**/'' @ pattern)
             else pattern)
      in if symbolIs pattern1 (len - 1) PATH_SEPARATOR then pattern1 @ ''**'' else pattern1)"

subsection \<open>Symbols, edges and nodes\<close>

datatype SymbolType = eOneSymbol | eEndOfLine | eAnyPathSegmentSymbol | eAnySymbol

text \<open>The value of each enumerator, which \<^verbatim>\<open>compare_edges_priority\<close> compares.\<close>

fun SymbolType_value :: "SymbolType \<Rightarrow> nat" where
  "SymbolType_value eOneSymbol = 0"
| "SymbolType_value eEndOfLine = 1"
| "SymbolType_value eAnyPathSegmentSymbol = 2"
| "SymbolType_value eAnySymbol = 3"

record InputSymbol =
  stype :: SymbolType
  sym :: char

text \<open>The constructor \<^verbatim>\<open>InputSymbol(SymbolType t)\<close>.\<close>

definition InputSymbol_of :: "SymbolType \<Rightarrow> InputSymbol" where
  "InputSymbol_of t = \<lparr>stype = t, sym = CHR 0x00\<rparr>"

text \<open>
  \<^verbatim>\<open>InputSymbol::match\<close>. Its \<^verbatim>\<open>default:\<close> branch, which throws, needs a fifth
  enumerator: the datatype has four, so the branch has no counterpart here.
\<close>

definition InputSymbol_match :: "InputSymbol \<Rightarrow> char \<Rightarrow> bool" where
  "InputSymbol_match symb s =
     (case stype symb of
        eOneSymbol \<Rightarrow> s = sym symb
      | eEndOfLine \<Rightarrow> s = END_OF_LINE
      | eAnySymbol \<Rightarrow> True
      | eAnyPathSegmentSymbol \<Rightarrow> s \<noteq> PATH_SEPARATOR \<and> s \<noteq> END_OF_LINE)"

record Edge =
  symbol :: InputSymbol
  nextNodeId :: int

record Node =
  edges :: "Edge list"

definition compare_edges_priority :: "Edge \<Rightarrow> Edge \<Rightarrow> bool" where
  "compare_edges_priority e1 e2 =
     (SymbolType_value (stype (symbol e1)) < SymbolType_value (stype (symbol e2)))"

text \<open>
  \<^verbatim>\<open>std::sort\<close> belongs to the C++ standard library, not to this program. The model
  takes it as a parameter \<open>srt\<close>: a function from a comparison and a list to a list.
  The standard promises of \<^verbatim>\<open>std::sort\<close> that the result is a rearrangement of the
  input in which no element is followed by one that compares less; it does not promise
  the relative order of elements that compare equal.
\<close>

type_synonym sort_fn = "(Edge \<Rightarrow> Edge \<Rightarrow> bool) \<Rightarrow> Edge list \<Rightarrow> Edge list"

definition std_sort_spec :: "sort_fn \<Rightarrow> bool" where
  "std_sort_spec srt =
     (\<forall>es. mset (srt compare_edges_priority es) = mset es \<and>
           sorted_wrt (\<lambda>a b. \<not> compare_edges_priority b a) (srt compare_edges_priority es))"

text \<open>
  Two sorting functions that meet the promise. \<open>insertion_sort\<close> puts an element
  behind the elements that compare equal to it and came earlier (a stable sort);
  \<open>reversing_sort\<close> puts it in front of them.
\<close>

fun insert_last :: "('a \<Rightarrow> 'a \<Rightarrow> bool) \<Rightarrow> 'a \<Rightarrow> 'a list \<Rightarrow> 'a list" where
  "insert_last cmp x [] = [x]"
| "insert_last cmp x (y # ys) =
     (if cmp x y then x # y # ys else y # insert_last cmp x ys)"

fun insert_first :: "('a \<Rightarrow> 'a \<Rightarrow> bool) \<Rightarrow> 'a \<Rightarrow> 'a list \<Rightarrow> 'a list" where
  "insert_first cmp x [] = [x]"
| "insert_first cmp x (y # ys) =
     (if cmp y x then y # insert_first cmp x ys else x # y # ys)"

fun insertion_sort_from :: "('a \<Rightarrow> 'a \<Rightarrow> bool) \<Rightarrow> 'a list \<Rightarrow> 'a list \<Rightarrow> 'a list" where
  "insertion_sort_from cmp acc [] = acc"
| "insertion_sort_from cmp acc (x # xs) = insertion_sort_from cmp (insert_last cmp x acc) xs"

definition insertion_sort :: "('a \<Rightarrow> 'a \<Rightarrow> bool) \<Rightarrow> 'a list \<Rightarrow> 'a list" where
  "insertion_sort cmp xs = insertion_sort_from cmp [] xs"

fun reversing_sort_from :: "('a \<Rightarrow> 'a \<Rightarrow> bool) \<Rightarrow> 'a list \<Rightarrow> 'a list \<Rightarrow> 'a list" where
  "reversing_sort_from cmp acc [] = acc"
| "reversing_sort_from cmp acc (x # xs) = reversing_sort_from cmp (insert_first cmp x acc) xs"

definition reversing_sort :: "('a \<Rightarrow> 'a \<Rightarrow> bool) \<Rightarrow> 'a list \<Rightarrow> 'a list" where
  "reversing_sort cmp xs = reversing_sort_from cmp [] xs"

text \<open>The two overloads of \<^verbatim>\<open>Node::addEdge\<close>: push the edge, then sort.\<close>

definition Node_addEdge_char :: "sort_fn \<Rightarrow> char \<Rightarrow> int \<Rightarrow> Node \<Rightarrow> Node" where
  "Node_addEdge_char srt c nodeId node =
     (let e = \<lparr>symbol = \<lparr>stype = eOneSymbol, sym = c\<rparr>, nextNodeId = nodeId\<rparr>
      in node\<lparr>edges := srt compare_edges_priority (edges node @ [e])\<rparr>)"

definition Node_addEdge :: "sort_fn \<Rightarrow> InputSymbol \<Rightarrow> int \<Rightarrow> Node \<Rightarrow> Node" where
  "Node_addEdge srt s nodeId node =
     (let e = \<lparr>symbol = s, nextNodeId = nodeId\<rparr>
      in node\<lparr>edges := srt compare_edges_priority (edges node @ [e])\<rparr>)"

definition edgeCount :: "Node \<Rightarrow> int" where
  "edgeCount node = int (length (edges node))"

text \<open>
  \<^verbatim>\<open>Node::selectEdge\<close> returns a flag and writes \<^verbatim>\<open>nextNodeId\<close> when the flag is
  true: \<open>Some\<close> of the value written, \<open>None\<close> for false.
\<close>

definition selectEdge :: "Node \<Rightarrow> int \<Rightarrow> char \<Rightarrow> int option" where
  "selectEdge node edgeIdx s =
     (if edgeIdx < 0 \<or> edgeIdx \<ge> edgeCount node then None
      else (let e = edges node ! nat edgeIdx
            in if \<not> InputSymbol_match (symbol e) s then None else Some (nextNodeId e)))"

subsection \<open>SimpleStateMachine: compiling a pattern\<close>

text \<open>
  The only member of the class is \<^verbatim>\<open>nodesArray\<close>; the model passes it as a
  \<^typ>\<open>Node list\<close> and returns it updated. The private \<^verbatim>\<open>addEdge\<close> overloads index
  \<^verbatim>\<open>nodesArray\<close> at \<open>fromNodeIdx\<close>, which at every call is the index of the last
  node of a non-empty array.
\<close>

definition createNewNode :: "Node list \<Rightarrow> Node list \<times> int" where
  "createNewNode ns = (let ns' = ns @ [\<lparr>edges = []\<rparr>] in (ns', int (length ns') - 1))"

definition lastNodeIdx :: "Node list \<Rightarrow> int" where
  "lastNodeIdx ns = int (length ns) - 1"

definition addEdge_char :: "sort_fn \<Rightarrow> int \<Rightarrow> char \<Rightarrow> int \<Rightarrow> Node list \<Rightarrow> Node list" where
  "addEdge_char srt fromNodeIdx c toNodeIdx ns =
     ns[nat fromNodeIdx := Node_addEdge_char srt c toNodeIdx (ns ! nat fromNodeIdx)]"

definition addEdge :: "sort_fn \<Rightarrow> int \<Rightarrow> InputSymbol \<Rightarrow> int \<Rightarrow> Node list \<Rightarrow> Node list" where
  "addEdge srt fromNodeIdx input toNodeIdx ns =
     ns[nat fromNodeIdx := Node_addEdge srt input toNodeIdx (ns ! nat fromNodeIdx)]"

text \<open>
  The body of the \<^verbatim>\<open>switch\<close> in \<^verbatim>\<open>setPattern\<close> for the character at \<open>patternPos\<close>:
  it returns the array, \<^verbatim>\<open>previousStarNodeIdx\<close> and \<^verbatim>\<open>patternPos\<close> as the body
  leaves them (the loop's own increment comes after).
\<close>

definition setPattern_step ::
  "sort_fn \<Rightarrow> string \<Rightarrow> nat \<Rightarrow> int \<Rightarrow> Node list \<Rightarrow> Node list \<times> int \<times> nat" where
  "setPattern_step srt pattern patternPos previousStarNodeIdx ns =
     (let s = pattern ! patternPos in
      if s = PATH_SEPARATOR then
        (let currentNodeIdx = lastNodeIdx ns;
             (ns1, nextNodeIdx) = createNewNode ns;
             ns2 = addEdge_char srt currentNodeIdx PATH_SEPARATOR nextNodeIdx ns1
         in if symbolIs pattern (int patternPos + 1) (CHR ''*'') \<and>
               symbolIs pattern (int patternPos + 2) (CHR ''*'')
            then (let ns3 = addEdge srt nextNodeIdx (InputSymbol_of eAnySymbol) nextNodeIdx ns2
                  in if symbolIs pattern (int patternPos + 3) PATH_SEPARATOR
                     then (ns3, nextNodeIdx, patternPos + 3)
                     else (ns3, nextNodeIdx, patternPos + 2))
            else (ns2, - 1, patternPos))
      else if s = CHR ''?'' then
        (let currentNodeIdx = lastNodeIdx ns;
             (ns1, nextNodeIdx) = createNewNode ns;
             ns2 = addEdge srt currentNodeIdx (InputSymbol_of eAnyPathSegmentSymbol) nextNodeIdx ns1
         in (ns2, - 1, patternPos))
      else if s = CHR ''*'' then
        (let currentNodeIdx = lastNodeIdx ns;
             ns1 = addEdge srt currentNodeIdx (InputSymbol_of eAnyPathSegmentSymbol) currentNodeIdx ns
         in (ns1, currentNodeIdx, patternPos))
      else
        (let currentNodeIdx = lastNodeIdx ns;
             (ns1, nextNodeIdx) = createNewNode ns;
             ns2 = addEdge_char srt currentNodeIdx s nextNodeIdx ns1
         in if previousStarNodeIdx \<ge> 0
            then (addEdge srt nextNodeIdx (InputSymbol_of eAnyPathSegmentSymbol)
                    previousStarNodeIdx ns2, previousStarNodeIdx, patternPos)
            else (ns2, previousStarNodeIdx, patternPos)))"

lemma setPattern_step_pos:
  "setPattern_step srt pattern patternPos prev ns = (ns', prev', pos') \<Longrightarrow> patternPos \<le> pos'"
  by (auto simp: setPattern_step_def Let_def split: if_splits prod.splits)

function setPattern_loop ::
  "sort_fn \<Rightarrow> string \<Rightarrow> nat \<Rightarrow> int \<Rightarrow> Node list \<Rightarrow> Node list" where
  "setPattern_loop srt pattern patternPos previousStarNodeIdx ns =
     (if patternPos < length pattern
      then (case setPattern_step srt pattern patternPos previousStarNodeIdx ns of
              (ns', prev', pos') \<Rightarrow> setPattern_loop srt pattern (pos' + 1) prev' ns')
      else ns)"
  by pat_completeness auto
termination
  by (relation "measure (\<lambda>(srt, pattern, patternPos, prev, ns). length pattern - patternPos)")
     (auto dest: setPattern_step_pos [OF sym])

declare setPattern_loop.simps [simp del]

definition setPattern :: "sort_fn \<Rightarrow> string \<Rightarrow> Node list \<Rightarrow> Node list" where
  "setPattern srt pattern ns =
     (if pattern = [] then ns
      else (let ns0 = ns @ [\<lparr>edges = []\<rparr>];
                ns1 = setPattern_loop srt pattern 0 (- 1) ns0;
                currentNodeIdx = lastNodeIdx ns1
            in addEdge srt currentNodeIdx (InputSymbol_of eEndOfLine) SUCCESS_NODE_IDX ns1))"

subsection \<open>SimpleStateMachine: matching a path\<close>

text \<open>
  \<open>NoPattern\<close> is the \<^verbatim>\<open>runtime_error\<close> that \<^verbatim>\<open>match\<close> throws on an empty
  \<^verbatim>\<open>nodesArray\<close>. \<open>OutOfRange\<close> stands for \<^verbatim>\<open>nodesArray[nodeIdx]\<close> with an index
  outside the array, which is undefined behaviour in C++.
\<close>

datatype error = NoPattern | OutOfRange

text \<open>
  \<^verbatim>\<open>tryMatchPatternPart\<close> and its \<^verbatim>\<open>for\<close> loop over the edges of the current node
  (\<open>tryEdges\<close>, at the loop counter \<open>edgeIdx\<close>).
\<close>

function tryMatchPatternPart :: "Node list \<Rightarrow> int \<Rightarrow> string \<Rightarrow> int \<Rightarrow> error + bool"
  and tryEdges :: "Node list \<Rightarrow> Node \<Rightarrow> char \<Rightarrow> string \<Rightarrow> int \<Rightarrow> nat \<Rightarrow> error + bool" where
  "tryMatchPatternPart ns nodeIdx path pathPos =
     (if nodeIdx = SUCCESS_NODE_IDX then Inr True
      else if nodeIdx = ERROR_NODE_IDX then Inr False
      else if pathPos < 0 \<or> pathPos > int (length path) then Inr False
      else if nodeIdx < 0 \<or> nodeIdx \<ge> int (length ns) then Inl OutOfRange
      else tryEdges ns (ns ! nat nodeIdx) (string_at path pathPos) path pathPos 0)"
| "tryEdges ns currentNode s path pathPos edgeIdx =
     (if int edgeIdx < edgeCount currentNode
      then (case selectEdge currentNode (int edgeIdx) s of
              Some nextId \<Rightarrow>
                (case tryMatchPatternPart ns nextId path (pathPos + 1) of
                   Inl err \<Rightarrow> Inl err
                 | Inr True \<Rightarrow> Inr True
                 | Inr False \<Rightarrow> tryEdges ns currentNode s path pathPos (edgeIdx + 1))
            | None \<Rightarrow> tryEdges ns currentNode s path pathPos (edgeIdx + 1))
      else Inr False)"
  by pat_completeness auto
termination
  by (relation "inv_image (less_than <*lex*> less_than)
        (\<lambda>x. case x of
           Inl (ns, nodeIdx, path, pathPos) \<Rightarrow> (2 * nat (int (length path) + 1 - pathPos), 0)
         | Inr (ns, currentNode, s, path, pathPos, edgeIdx) \<Rightarrow>
             (2 * nat (int (length path) - pathPos) + 1, nat (edgeCount currentNode) - edgeIdx))")
     (auto simp: edgeCount_def)

declare tryMatchPatternPart.simps [simp del] tryEdges.simps [simp del]

definition match :: "Node list \<Rightarrow> string \<Rightarrow> error + bool" where
  "match ns path =
     (if path = [] then Inr False
      else if ns = [] then Inl NoPattern
      else tryMatchPatternPart ns 0 path 0)"

subsection \<open>The search with a bound on the recursion depth\<close>

text \<open>
  \<^verbatim>\<open>tryMatchPatternPart\<close> again, with a budget of nested activations: a call takes one
  unit, its loop passes what is left to the calls it makes, and a call without budget is
  \<open>None\<close>. The search fits in a budget exactly when its recursion is at most that
  deep.
\<close>

function tryMatchPatternPart_fuel ::
    "nat \<Rightarrow> Node list \<Rightarrow> int \<Rightarrow> string \<Rightarrow> int \<Rightarrow> (error + bool) option"
  and tryEdges_fuel ::
    "nat \<Rightarrow> Node list \<Rightarrow> Node \<Rightarrow> char \<Rightarrow> string \<Rightarrow> int \<Rightarrow> nat \<Rightarrow> (error + bool) option" where
  "tryMatchPatternPart_fuel 0 ns nodeIdx path pathPos = None"
| "tryMatchPatternPart_fuel (Suc fuel) ns nodeIdx path pathPos =
     (if nodeIdx = SUCCESS_NODE_IDX then Some (Inr True)
      else if nodeIdx = ERROR_NODE_IDX then Some (Inr False)
      else if pathPos < 0 \<or> pathPos > int (length path) then Some (Inr False)
      else if nodeIdx < 0 \<or> nodeIdx \<ge> int (length ns) then Some (Inl OutOfRange)
      else tryEdges_fuel fuel ns (ns ! nat nodeIdx) (string_at path pathPos) path pathPos 0)"
| "tryEdges_fuel fuel ns currentNode s path pathPos edgeIdx =
     (if int edgeIdx < edgeCount currentNode
      then (case selectEdge currentNode (int edgeIdx) s of
              Some nextId \<Rightarrow>
                (case tryMatchPatternPart_fuel fuel ns nextId path (pathPos + 1) of
                   None \<Rightarrow> None
                 | Some (Inl err) \<Rightarrow> Some (Inl err)
                 | Some (Inr True) \<Rightarrow> Some (Inr True)
                 | Some (Inr False) \<Rightarrow> tryEdges_fuel fuel ns currentNode s path pathPos (edgeIdx + 1))
            | None \<Rightarrow> tryEdges_fuel fuel ns currentNode s path pathPos (edgeIdx + 1))
      else Some (Inr False))"
  by pat_completeness auto
termination
  by (relation "inv_image (less_than <*lex*> less_than <*lex*> less_than)
        (\<lambda>x. case x of
           Inl (fuel, ns, nodeIdx, path, pathPos) \<Rightarrow> (fuel, 0, 0)
         | Inr (fuel, ns, currentNode, s, path, pathPos, edgeIdx) \<Rightarrow>
             (fuel, 1, nat (edgeCount currentNode) - edgeIdx))")
     (auto simp: edgeCount_def)

declare tryMatchPatternPart_fuel.simps [simp del] tryEdges_fuel.simps [simp del]

subsection \<open>The search with the store passed along\<close>

text \<open>
  \<^verbatim>\<open>match\<close> is a non-const member that takes the path by non-const reference, and
  \<^verbatim>\<open>selectEdge\<close> and \<^verbatim>\<open>InputSymbol::match\<close> are non-const too: the language would let
  them write to \<^verbatim>\<open>nodesArray\<close> and to the path. Here the store (the array and the path
  string) is passed through every call and returned, each statement of the source seeing
  the store that the statement before it left. The loop reads the current node through
  its reference, so from the store as it is at each iteration. That the recursion ends
  rests on the calls returning the store they were given, which is proved first.
\<close>

type_synonym store = "Node list \<times> string"

function tryMatchPatternPart_st :: "store \<Rightarrow> int \<Rightarrow> int \<Rightarrow> (error + bool) \<times> store"
  and tryEdges_st :: "store \<Rightarrow> int \<Rightarrow> char \<Rightarrow> int \<Rightarrow> nat \<Rightarrow> (error + bool) \<times> store" where
  "tryMatchPatternPart_st st nodeIdx pathPos =
     (if nodeIdx = SUCCESS_NODE_IDX then (Inr True, st)
      else if nodeIdx = ERROR_NODE_IDX then (Inr False, st)
      else if pathPos < 0 \<or> pathPos > int (length (snd st)) then (Inr False, st)
      else if nodeIdx < 0 \<or> nodeIdx \<ge> int (length (fst st)) then (Inl OutOfRange, st)
      else tryEdges_st st nodeIdx (string_at (snd st) pathPos) pathPos 0)"
| "tryEdges_st st nodeIdx s pathPos edgeIdx =
     (if int edgeIdx < edgeCount (fst st ! nat nodeIdx)
      then (case selectEdge (fst st ! nat nodeIdx) (int edgeIdx) s of
              Some nextId \<Rightarrow>
                (case tryMatchPatternPart_st st nextId (pathPos + 1) of
                   (Inl err, st') \<Rightarrow> (Inl err, st')
                 | (Inr True, st') \<Rightarrow> (Inr True, st')
                 | (Inr False, st') \<Rightarrow> tryEdges_st st' nodeIdx s pathPos (edgeIdx + 1))
            | None \<Rightarrow> tryEdges_st st nodeIdx s pathPos (edgeIdx + 1))
      else (Inr False, st))"
  by pat_completeness auto

lemma store_unchanged_dom:
  "tryMatchPatternPart_st_tryEdges_st_dom (Inl (st, nodeIdx, pathPos)) \<Longrightarrow>
     snd (tryMatchPatternPart_st st nodeIdx pathPos) = st"
  "tryMatchPatternPart_st_tryEdges_st_dom (Inr (st, nodeIdx, s, pathPos, edgeIdx)) \<Longrightarrow>
     snd (tryEdges_st st nodeIdx s pathPos edgeIdx) = st"
proof (induction st nodeIdx pathPos and st nodeIdx s pathPos edgeIdx
    rule: tryMatchPatternPart_st_tryEdges_st.pinduct)
  case (1 st nodeIdx pathPos)
  then show ?case by (simp add: tryMatchPatternPart_st.psimps)
next
  case (2 st nodeIdx s pathPos edgeIdx)
  note dom = "2.hyps"
  show ?case
  proof (cases "int edgeIdx < edgeCount (fst st ! nat nodeIdx)")
    case False
    with dom show ?thesis by (simp add: tryEdges_st.psimps)
  next
    case True
    show ?thesis
    proof (cases "selectEdge (fst st ! nat nodeIdx) (int edgeIdx) s")
      case None
      with "2.IH"(1) [OF True None] dom True show ?thesis by (simp add: tryEdges_st.psimps)
    next
      case (Some nextId)
      obtain r st' where rec: "tryMatchPatternPart_st st nextId (pathPos + 1) = (r, st')"
        by (cases "tryMatchPatternPart_st st nextId (pathPos + 1)") auto
      with "2.IH"(2) [OF True Some] have st': "st' = st" by simp
      show ?thesis
      proof (cases r)
        case (Inl err)
        with rec st' dom True Some show ?thesis by (simp add: tryEdges_st.psimps)
      next
        case (Inr b)
        show ?thesis
        proof (cases b)
          case True
          with Inr rec st' dom Some \<open>int edgeIdx < edgeCount (fst st ! nat nodeIdx)\<close>
          show ?thesis by (simp add: tryEdges_st.psimps)
        next
          case False
          then have bF: "b = False" by simp
          from "2.IH"(3) [OF True Some rec [symmetric] Inr bF] st'
          have "snd (tryEdges_st st nodeIdx s pathPos (edgeIdx + 1)) = st" by simp
          with Inr bF rec st' dom Some True show ?thesis by (simp add: tryEdges_st.psimps)
        qed
      qed
    qed
  qed
qed

termination tryMatchPatternPart_st
proof (relation "inv_image (less_than <*lex*> less_than)
        (\<lambda>x. case x of
           Inl (st, nodeIdx, pathPos) \<Rightarrow> (2 * nat (int (length (snd st)) + 1 - pathPos), 0)
         | Inr (st, nodeIdx, s, pathPos, edgeIdx) \<Rightarrow>
             (2 * nat (int (length (snd st)) - pathPos) + 1,
              nat (edgeCount (fst st ! nat nodeIdx)) - edgeIdx))", goal_cases)
  case 1
  show ?case by auto
next
  case (2 st nodeIdx pathPos)
  then show ?case by auto
next
  case (3 st nodeIdx s pathPos edgeIdx)
  then show ?case by (auto simp: edgeCount_def)
next
  case (4 st nodeIdx s pathPos edgeIdx x2)
  then show ?case by auto
next
  case (5 st nodeIdx s pathPos edgeIdx x2 x y b)
  from store_unchanged_dom(1) [OF 5(6)] 5(3) have "y = st" by (metis snd_conv)
  with 5 show ?case by (auto simp: edgeCount_def)
qed

declare tryMatchPatternPart_st.simps [simp del] tryEdges_st.simps [simp del]

definition match_st :: "store \<Rightarrow> (error + bool) \<times> store" where
  "match_st st =
     (if snd st = [] then (Inr False, st)
      else if fst st = [] then (Inl NoPattern, st)
      else tryMatchPatternPart_st st 0 0)"

subsection \<open>The search with the walk recorded\<close>

text \<open>
  \<^verbatim>\<open>tryMatchPatternPart\<close> once more, returning with a success the edges through which
  the calls that returned true were made, each with the index of the node it leaves:
  the walk that the search itself finds. \<open>found\<close> forgets the walk.
\<close>

function tryMatchPatternPart_walk ::
    "Node list \<Rightarrow> int \<Rightarrow> string \<Rightarrow> int \<Rightarrow> error + (int \<times> Edge) list option"
  and tryEdges_walk ::
    "Node list \<Rightarrow> int \<Rightarrow> char \<Rightarrow> string \<Rightarrow> int \<Rightarrow> nat \<Rightarrow> error + (int \<times> Edge) list option" where
  "tryMatchPatternPart_walk ns nodeIdx path pathPos =
     (if nodeIdx = SUCCESS_NODE_IDX then Inr (Some [])
      else if nodeIdx = ERROR_NODE_IDX then Inr None
      else if pathPos < 0 \<or> pathPos > int (length path) then Inr None
      else if nodeIdx < 0 \<or> nodeIdx \<ge> int (length ns) then Inl OutOfRange
      else tryEdges_walk ns nodeIdx (string_at path pathPos) path pathPos 0)"
| "tryEdges_walk ns nodeIdx s path pathPos edgeIdx =
     (if int edgeIdx < edgeCount (ns ! nat nodeIdx)
      then (case selectEdge (ns ! nat nodeIdx) (int edgeIdx) s of
              Some nextId \<Rightarrow>
                (case tryMatchPatternPart_walk ns nextId path (pathPos + 1) of
                   Inl err \<Rightarrow> Inl err
                 | Inr (Some es) \<Rightarrow> Inr (Some ((nodeIdx, edges (ns ! nat nodeIdx) ! edgeIdx) # es))
                 | Inr None \<Rightarrow> tryEdges_walk ns nodeIdx s path pathPos (edgeIdx + 1))
            | None \<Rightarrow> tryEdges_walk ns nodeIdx s path pathPos (edgeIdx + 1))
      else Inr None)"
  by pat_completeness auto
termination
  by (relation "inv_image (less_than <*lex*> less_than)
        (\<lambda>x. case x of
           Inl (ns, nodeIdx, path, pathPos) \<Rightarrow> (2 * nat (int (length path) + 1 - pathPos), 0)
         | Inr (ns, nodeIdx, s, path, pathPos, edgeIdx) \<Rightarrow>
             (2 * nat (int (length path) - pathPos) + 1,
              nat (edgeCount (ns ! nat nodeIdx)) - edgeIdx))")
     (auto simp: edgeCount_def)

declare tryMatchPatternPart_walk.simps [simp del] tryEdges_walk.simps [simp del]

definition found :: "error + (int \<times> Edge) list option \<Rightarrow> error + bool" where
  "found r = (case r of Inl err \<Rightarrow> Inl err | Inr None \<Rightarrow> Inr False | Inr (Some es) \<Rightarrow> Inr True)"

subsection \<open>std::sort as the GNU C++ library implements it\<close>

text \<open>
  What \<^verbatim>\<open>std::sort\<close> does with elements that compare equal is decided by the library
  the program is built with, not by the program. This is a model of the implementation in
  the GNU C++ library (\<^verbatim>\<open>bits/stl_algo.h\<close>: \<^verbatim>\<open>__sort\<close>, \<^verbatim>\<open>__introsort_loop\<close>,
  \<^verbatim>\<open>__unguarded_partition_pivot\<close>, \<^verbatim>\<open>__move_median_to_first\<close>,
  \<^verbatim>\<open>__unguarded_partition\<close>, \<^verbatim>\<open>__final_insertion_sort\<close>, \<^verbatim>\<open>__insertion_sort\<close>,
  \<^verbatim>\<open>__unguarded_linear_insert\<close>, with \<^verbatim>\<open>_S_threshold = 16\<close>). The array is a list and
  the iterators are indices into it. A range of at most 16 elements is sorted by
  insertion alone; a longer one is first partitioned around the median of three of its
  elements, which exchanges elements that compare equal.

  Two things are not the library's. The scans of \<^verbatim>\<open>__unguarded_partition\<close> and
  \<^verbatim>\<open>__unguarded_linear_insert\<close> have no bounds test in the library (the pivot and the
  first element stop them); here they also stop at the ends of the list. And the heap
  sort that the library falls back to when the depth limit is used up is not modelled:
  \<open>introsort_loop\<close> is \<open>None\<close> there, and \<open>libstdcxx_sort\<close> then answers with
  \<open>insertion_sort\<close>.
\<close>

definition iter_swap :: "'a list \<Rightarrow> nat \<Rightarrow> nat \<Rightarrow> 'a list" where
  "iter_swap xs i j = xs[i := xs ! j, j := xs ! i]"

definition move_median_to_first ::
  "('a \<Rightarrow> 'a \<Rightarrow> bool) \<Rightarrow> 'a list \<Rightarrow> nat \<Rightarrow> nat \<Rightarrow> nat \<Rightarrow> nat \<Rightarrow> 'a list" where
  "move_median_to_first cmp xs result a b c =
     (if cmp (xs ! a) (xs ! b)
      then (if cmp (xs ! b) (xs ! c) then iter_swap xs result b
            else if cmp (xs ! a) (xs ! c) then iter_swap xs result c
            else iter_swap xs result a)
      else if cmp (xs ! a) (xs ! c) then iter_swap xs result a
      else if cmp (xs ! b) (xs ! c) then iter_swap xs result c
      else iter_swap xs result b)"

function scan_up :: "('a \<Rightarrow> 'a \<Rightarrow> bool) \<Rightarrow> 'a list \<Rightarrow> nat \<Rightarrow> nat \<Rightarrow> nat" where
  "scan_up cmp xs first pivot =
     (if first < length xs \<and> cmp (xs ! first) (xs ! pivot)
      then scan_up cmp xs (first + 1) pivot else first)"
  by pat_completeness auto
termination
  by (relation "measure (\<lambda>(cmp, xs, first, pivot). length xs - first)") auto

declare scan_up.simps [simp del]

function scan_down :: "('a \<Rightarrow> 'a \<Rightarrow> bool) \<Rightarrow> 'a list \<Rightarrow> nat \<Rightarrow> nat \<Rightarrow> nat" where
  "scan_down cmp xs lasti pivot =
     (if 0 < lasti \<and> cmp (xs ! pivot) (xs ! lasti)
      then scan_down cmp xs (lasti - 1) pivot else lasti)"
  by pat_completeness auto
termination
  by (relation "measure (\<lambda>(cmp, xs, lasti, pivot). lasti)") auto

declare scan_down.simps [simp del]

lemma scan_up_ge: "first \<le> scan_up cmp xs first pivot"
proof (induction cmp xs first pivot rule: scan_up.induct)
  case (1 cmp xs first pivot)
  then show ?case
    by (subst scan_up.simps) (auto simp: Suc_leD)
qed

lemma scan_down_le: "scan_down cmp xs lasti pivot \<le> lasti"
proof (induction cmp xs lasti pivot rule: scan_down.induct)
  case (1 cmp xs lasti pivot)
  then show ?case
    by (subst scan_down.simps) (auto intro: le_trans)
qed

function unguarded_partition ::
  "('a \<Rightarrow> 'a \<Rightarrow> bool) \<Rightarrow> 'a list \<Rightarrow> nat \<Rightarrow> nat \<Rightarrow> nat \<Rightarrow> nat \<times> 'a list" where
  "unguarded_partition cmp xs first lasti pivot =
     (let first1 = scan_up cmp xs first pivot;
          lasti1 = scan_down cmp xs (lasti - 1) pivot
      in if \<not> first1 < lasti1 then (first1, xs)
         else unguarded_partition cmp (iter_swap xs first1 lasti1) (first1 + 1) lasti1 pivot)"
  by pat_completeness auto
termination
proof (relation "measure (\<lambda>(cmp, xs, first, lasti, pivot). lasti - first)", goal_cases)
  case 1
  show ?case by simp
next
  case (2 cmp xs first lasti pivot first1 lasti1)
  have "first \<le> first1" using 2(1) by (simp add: scan_up_ge)
  moreover have "lasti1 \<le> lasti - 1" using 2(2) by (simp add: scan_down_le)
  ultimately show ?case using 2(3) by auto
qed

declare unguarded_partition.simps [simp del]

definition unguarded_partition_pivot ::
  "('a \<Rightarrow> 'a \<Rightarrow> bool) \<Rightarrow> 'a list \<Rightarrow> nat \<Rightarrow> nat \<Rightarrow> nat \<times> 'a list" where
  "unguarded_partition_pivot cmp xs first lasti =
     (let mid = first + (lasti - first) div 2;
          xs1 = move_median_to_first cmp xs first (first + 1) mid (lasti - 1)
      in unguarded_partition cmp xs1 (first + 1) lasti first)"

fun introsort_loop ::
  "('a \<Rightarrow> 'a \<Rightarrow> bool) \<Rightarrow> nat \<Rightarrow> nat \<Rightarrow> nat \<Rightarrow> 'a list \<Rightarrow> 'a list option" where
  "introsort_loop cmp 0 first lasti xs = (if 16 < lasti - first then None else Some xs)"
| "introsort_loop cmp (Suc depth_limit) first lasti xs =
     (if 16 < lasti - first
      then (case unguarded_partition_pivot cmp xs first lasti of
              (cuti, xs1) \<Rightarrow>
                (case introsort_loop cmp depth_limit cuti lasti xs1 of
                   None \<Rightarrow> None
                 | Some xs2 \<Rightarrow> introsort_loop cmp depth_limit first cuti xs2))
      else Some xs)"

function unguarded_linear_insert ::
  "('a \<Rightarrow> 'a \<Rightarrow> bool) \<Rightarrow> 'a \<Rightarrow> 'a list \<Rightarrow> nat \<Rightarrow> 'a list" where
  "unguarded_linear_insert cmp val xs lasti =
     (if 0 < lasti \<and> cmp val (xs ! (lasti - 1))
      then unguarded_linear_insert cmp val (xs[lasti := xs ! (lasti - 1)]) (lasti - 1)
      else xs[lasti := val])"
  by pat_completeness auto
termination
  by (relation "measure (\<lambda>(cmp, val, xs, lasti). lasti)") auto

declare unguarded_linear_insert.simps [simp del]

definition insertion_step :: "('a \<Rightarrow> 'a \<Rightarrow> bool) \<Rightarrow> nat \<Rightarrow> nat \<Rightarrow> 'a list \<Rightarrow> 'a list" where
  "insertion_step cmp first i xs =
     (if cmp (xs ! i) (xs ! first)
      then take first xs @ [xs ! i] @ take (i - first) (drop first xs) @ drop (i + 1) xs
      else unguarded_linear_insert cmp (xs ! i) xs i)"

definition insertion_sort_range ::
  "('a \<Rightarrow> 'a \<Rightarrow> bool) \<Rightarrow> 'a list \<Rightarrow> nat \<Rightarrow> nat \<Rightarrow> 'a list" where
  "insertion_sort_range cmp xs first lasti = fold (insertion_step cmp first) [first + 1..<lasti] xs"

definition unguarded_insertion_sort ::
  "('a \<Rightarrow> 'a \<Rightarrow> bool) \<Rightarrow> 'a list \<Rightarrow> nat \<Rightarrow> nat \<Rightarrow> 'a list" where
  "unguarded_insertion_sort cmp xs first lasti =
     fold (\<lambda>i ys. unguarded_linear_insert cmp (ys ! i) ys i) [first..<lasti] xs"

definition final_insertion_sort ::
  "('a \<Rightarrow> 'a \<Rightarrow> bool) \<Rightarrow> 'a list \<Rightarrow> nat \<Rightarrow> nat \<Rightarrow> 'a list" where
  "final_insertion_sort cmp xs first lasti =
     (if 16 < lasti - first
      then unguarded_insertion_sort cmp (insertion_sort_range cmp xs first (first + 16)) (first + 16) lasti
      else insertion_sort_range cmp xs first lasti)"

fun lg :: "nat \<Rightarrow> nat" where
  "lg n = (if n < 2 then 0 else Suc (lg (n div 2)))"

declare lg.simps [simp del]

definition libstdcxx_sort_run :: "('a \<Rightarrow> 'a \<Rightarrow> bool) \<Rightarrow> 'a list \<Rightarrow> 'a list option" where
  "libstdcxx_sort_run cmp xs =
     (if xs = [] then Some xs
      else (case introsort_loop cmp (lg (length xs) * 2) 0 (length xs) xs of
              None \<Rightarrow> None
            | Some ys \<Rightarrow> Some (final_insertion_sort cmp ys 0 (length ys))))"

definition libstdcxx_sort :: "('a \<Rightarrow> 'a \<Rightarrow> bool) \<Rightarrow> 'a list \<Rightarrow> 'a list" where
  "libstdcxx_sort cmp xs = (case libstdcxx_sort_run cmp xs of Some ys \<Rightarrow> ys | None \<Rightarrow> insertion_sort cmp xs)"

section \<open>Notions used to state the properties\<close>

text \<open>The priority rank of an edge: the enumerator value of its symbol type.\<close>

definition edge_rank :: "Edge \<Rightarrow> nat" where
  "edge_rank e = SymbolType_value (stype (symbol e))"

definition nodes_sorted :: "Node list \<Rightarrow> bool" where
  "nodes_sorted ns = (\<forall>node \<in> set ns. sorted (map edge_rank (edges node)))"

text \<open>
  A node reference is valid for an array when it is the success sentinel or an index into
  the array; a graph is in order when every edge target is valid.
\<close>

definition valid_ref :: "Node list \<Rightarrow> int \<Rightarrow> bool" where
  "valid_ref ns n = (n = SUCCESS_NODE_IDX \<or> (0 \<le> n \<and> n < int (length ns)))"

definition node_ok :: "Node list \<Rightarrow> Node \<Rightarrow> bool" where
  "node_ok ns node = (\<forall>e \<in> set (edges node). valid_ref ns (nextNodeId e))"

definition graph_ok :: "Node list \<Rightarrow> bool" where
  "graph_ok ns = (\<forall>node \<in> set ns. node_ok ns node)"

text \<open>The edges of each node as a set: what is left of a graph when the order is forgotten.\<close>

definition edge_sets :: "Node list \<Rightarrow> Edge set list" where
  "edge_sets ns = map (\<lambda>node. set (edges node)) ns"

text \<open>
  The specification's notion of a match, in its words: a sequence of edge traversals from
  a node, each edge consuming exactly one path character (or the end-of-string marker,
  at the position one past the last character), that reaches the success sentinel.
  \<open>follows ns path nodeIdx pathPos es\<close> says that the edges \<open>es\<close> are such a sequence
  from \<open>nodeIdx\<close> at position \<open>pathPos\<close>.
\<close>

fun follows :: "Node list \<Rightarrow> string \<Rightarrow> int \<Rightarrow> int \<Rightarrow> Edge list \<Rightarrow> bool" where
  "follows ns path nodeIdx pathPos [] = (nodeIdx = SUCCESS_NODE_IDX)"
| "follows ns path nodeIdx pathPos (e # es) =
     (0 \<le> nodeIdx \<and> nodeIdx < int (length ns) \<and> e \<in> set (edges (ns ! nat nodeIdx)) \<and>
      0 \<le> pathPos \<and> pathPos \<le> int (length path) \<and>
      InputSymbol_match (symbol e) (string_at path pathPos) \<and>
      follows ns path (nextNodeId e) (pathPos + 1) es)"

definition edge_leads :: "Node list \<Rightarrow> string \<Rightarrow> int \<Rightarrow> char \<Rightarrow> Edge \<Rightarrow> bool" where
  "edge_leads ns path pathPos s e =
     (InputSymbol_match (symbol e) s \<and> (\<exists>es. follows ns path (nextNodeId e) (pathPos + 1) es))"

text \<open>
  The calls of \<^verbatim>\<open>tryMatchPatternPart\<close> that \<^verbatim>\<open>match\<close> gives rise to on a non-empty
  path and a non-empty array: the first one, at node 0 and position 0, and, from a call
  that gets past the sentinel and range tests, the call for the edge at \<open>edgeIdx\<close> that
  \<^verbatim>\<open>selectEdge\<close> accepts, provided the loop gets that far (every earlier accepted edge
  returned false).
\<close>

inductive called :: "Node list \<Rightarrow> string \<Rightarrow> int \<Rightarrow> int \<Rightarrow> bool" for ns path where
  first_call: "called ns path 0 0"
| recursive_call:
    "called ns path nodeIdx pathPos \<Longrightarrow>
     nodeIdx \<noteq> SUCCESS_NODE_IDX \<Longrightarrow> nodeIdx \<noteq> ERROR_NODE_IDX \<Longrightarrow>
     \<not> (pathPos < 0 \<or> pathPos > int (length path)) \<Longrightarrow>
     \<not> (nodeIdx < 0 \<or> nodeIdx \<ge> int (length ns)) \<Longrightarrow>
     int edgeIdx < edgeCount (ns ! nat nodeIdx) \<Longrightarrow>
     selectEdge (ns ! nat nodeIdx) (int edgeIdx) (string_at path pathPos) = Some nextId \<Longrightarrow>
     (\<forall>j < edgeIdx. \<forall>m. selectEdge (ns ! nat nodeIdx) (int j) (string_at path pathPos) = Some m \<longrightarrow>
        tryMatchPatternPart ns m path (pathPos + 1) = Inr False) \<Longrightarrow>
     called ns path nextId (pathPos + 1)"

text \<open>
  Acceptance of the rest of a path from a node: the same as a sequence of edge traversals
  (\<open>follows\<close>), told by recursion on the characters that are left. At the end of the path
  the character read is the end marker, and only an edge to the success sentinel helps.
\<close>

fun accepts :: "Node list \<Rightarrow> int \<Rightarrow> string \<Rightarrow> bool" where
  "accepts ns nodeIdx [] =
     (nodeIdx = SUCCESS_NODE_IDX \<or>
      (0 \<le> nodeIdx \<and> nodeIdx < int (length ns) \<and>
       (\<exists>e \<in> set (edges (ns ! nat nodeIdx)).
          InputSymbol_match (symbol e) END_OF_LINE \<and> nextNodeId e = SUCCESS_NODE_IDX)))"
| "accepts ns nodeIdx (c # w) =
     (nodeIdx = SUCCESS_NODE_IDX \<or>
      (0 \<le> nodeIdx \<and> nodeIdx < int (length ns) \<and>
       (\<exists>e \<in> set (edges (ns ! nat nodeIdx)).
          InputSymbol_match (symbol e) c \<and> accepts ns (nextNodeId e) w)))"


abbreviation class_edge :: "SymbolType \<Rightarrow> int \<Rightarrow> Edge" where
  "class_edge t n \<equiv> \<lparr>symbol = \<lparr>stype = t, sym = CHR 0x00\<rparr>, nextNodeId = n\<rparr>"



section \<open>Sorting functions\<close>

lemma sorted_by_priority:
  "sorted_wrt (\<lambda>a b. \<not> compare_edges_priority b a) es = sorted (map edge_rank es)"
  by (simp add: sorted_map compare_edges_priority_def edge_rank_def not_less)

lemma std_sort_spec_set:
  "std_sort_spec srt \<Longrightarrow> set (srt compare_edges_priority es) = set es"
  unfolding std_sort_spec_def by (metis mset_eq_setD)

lemma mset_insert_last: "mset (insert_last cmp x xs) = add_mset x (mset xs)"
  by (induction xs) auto

lemma mset_insert_first: "mset (insert_first cmp x xs) = add_mset x (mset xs)"
  by (induction xs) auto

lemma set_insert_last: "set (insert_last cmp x xs) = insert x (set xs)"
  by (induction xs) auto

lemma set_insert_first: "set (insert_first cmp x xs) = insert x (set xs)"
  by (induction xs) auto

lemma sorted_insert_last:
  "sorted (map edge_rank xs) \<Longrightarrow>
   sorted (map edge_rank (insert_last compare_edges_priority x xs))"
  by (induction xs) (auto simp: set_insert_last compare_edges_priority_def edge_rank_def)

lemma sorted_insert_first:
  "sorted (map edge_rank xs) \<Longrightarrow>
   sorted (map edge_rank (insert_first compare_edges_priority x xs))"
  by (induction xs) (auto simp: set_insert_first compare_edges_priority_def edge_rank_def)

lemma mset_insertion_sort_from:
  "mset (insertion_sort_from cmp acc xs) = mset acc + mset xs"
  by (induction xs arbitrary: acc) (auto simp: mset_insert_last)

lemma mset_reversing_sort_from:
  "mset (reversing_sort_from cmp acc xs) = mset acc + mset xs"
  by (induction xs arbitrary: acc) (auto simp: mset_insert_first)

lemma sorted_insertion_sort_from:
  "sorted (map edge_rank acc) \<Longrightarrow>
   sorted (map edge_rank (insertion_sort_from compare_edges_priority acc xs))"
  by (induction xs arbitrary: acc) (auto simp: sorted_insert_last)

lemma sorted_reversing_sort_from:
  "sorted (map edge_rank acc) \<Longrightarrow>
   sorted (map edge_rank (reversing_sort_from compare_edges_priority acc xs))"
  by (induction xs arbitrary: acc) (auto simp: sorted_insert_first)

lemma std_sort_spec_insertion_sort: "std_sort_spec insertion_sort"
  by (simp add: std_sort_spec_def insertion_sort_def mset_insertion_sort_from
      sorted_by_priority sorted_insertion_sort_from)

lemma std_sort_spec_reversing_sort: "std_sort_spec reversing_sort"
  by (simp add: std_sort_spec_def reversing_sort_def mset_reversing_sort_from
      sorted_by_priority sorted_reversing_sort_from)

section \<open>Adding edges\<close>

lemma length_addEdge [simp]: "length (addEdge srt f s t ns) = length ns"
  by (simp add: addEdge_def)

lemma length_addEdge_char [simp]: "length (addEdge_char srt f c t ns) = length ns"
  by (simp add: addEdge_char_def)

lemma addEdge_Nil_iff [simp]: "addEdge srt f s t ns = [] \<longleftrightarrow> ns = []"
  by (simp add: addEdge_def)

lemma addEdge_char_eq:
  "addEdge_char srt f c t ns = addEdge srt f \<lparr>stype = eOneSymbol, sym = c\<rparr> t ns"
  by (simp add: addEdge_char_def addEdge_def Node_addEdge_char_def Node_addEdge_def)

lemma edges_Node_addEdge:
  "std_sort_spec srt \<Longrightarrow>
   set (edges (Node_addEdge srt s t node)) = insert \<lparr>symbol = s, nextNodeId = t\<rparr> (set (edges node))"
  by (simp add: Node_addEdge_def std_sort_spec_set)

lemma valid_ref_mono: "valid_ref ns n \<Longrightarrow> length ns \<le> length ns' \<Longrightarrow> valid_ref ns' n"
  by (auto simp: valid_ref_def)

lemma node_ok_mono: "node_ok ns node \<Longrightarrow> length ns \<le> length ns' \<Longrightarrow> node_ok ns' node"
  by (auto simp: node_ok_def intro: valid_ref_mono)

lemma graph_ok_append_empty: "graph_ok ns \<Longrightarrow> graph_ok (ns @ [\<lparr>edges = []\<rparr>])"
  by (fastforce simp: graph_ok_def node_ok_def valid_ref_def)

lemma graph_ok_addEdge:
  assumes "std_sort_spec srt" "graph_ok ns" "valid_ref ns t"
  shows "graph_ok (addEdge srt f s t ns)"
proof -
  have "node_ok (addEdge srt f s t ns) node" if "node \<in> set (addEdge srt f s t ns)" for node
  proof -
    have "node \<in> set ns \<or> (node = Node_addEdge srt s t (ns ! nat f) \<and> nat f < length ns)"
    proof (cases "nat f < length ns")
      case True
      with that show ?thesis
        unfolding addEdge_def using set_update_subset_insert by fastforce
    next
      case False
      with that show ?thesis by (simp add: addEdge_def list_update_beyond)
    qed
    then consider "node \<in> set ns" | "node = Node_addEdge srt s t (ns ! nat f)" "nat f < length ns"
      by blast
    then show ?thesis
    proof cases
      case 1
      with assms(2) show ?thesis by (auto simp: graph_ok_def node_ok_def valid_ref_def)
    next
      case 2
      with assms show ?thesis
        by (auto simp: graph_ok_def node_ok_def edges_Node_addEdge valid_ref_def)
    qed
  qed
  then show ?thesis by (simp add: graph_ok_def)
qed

lemma edge_sets_length: "edge_sets ns = edge_sets ns' \<Longrightarrow> length ns = length ns'"
  unfolding edge_sets_def by (rule map_eq_imp_length_eq)

lemma edge_sets_append:
  "edge_sets ns = edge_sets ns' \<Longrightarrow> edge_sets (ns @ [node]) = edge_sets (ns' @ [node])"
  by (simp add: edge_sets_def)

lemma edge_sets_nth:
  "edge_sets ns = edge_sets ns' \<Longrightarrow> i < length ns \<Longrightarrow>
   set (edges (ns ! i)) = set (edges (ns' ! i))"
  by (metis edge_sets_def edge_sets_length nth_map)

lemma edge_sets_addEdge:
  assumes "std_sort_spec srt" "std_sort_spec srt'" "edge_sets ns = edge_sets ns'"
  shows "edge_sets (addEdge srt f s t ns) = edge_sets (addEdge srt' f s t ns')"
proof (cases "nat f < length ns")
  case True
  then have "set (edges (ns ! nat f)) = set (edges (ns' ! nat f))"
    using assms(3) by (rule edge_sets_nth [rotated])
  with assms show ?thesis
    by (simp add: edge_sets_def addEdge_def map_update edges_Node_addEdge)
next
  case False
  with assms(3) edge_sets_length [OF assms(3)] show ?thesis
    by (simp add: addEdge_def list_update_beyond)
qed

section \<open>Invariants of the compilation loop\<close>

lemma setPattern_step_ok:
  assumes "std_sort_spec srt" "graph_ok ns" "0 < length ns" "prev < int (length ns)"
    and "setPattern_step srt pattern pos prev ns = (ns', prev', pos')"
  shows "graph_ok ns' \<and> 0 < length ns' \<and> prev' < int (length ns')"
proof -
  let ?ns1 = "ns @ [\<lparr>edges = []\<rparr>]"
  have ok1: "graph_ok ?ns1" using assms(2) by (rule graph_ok_append_empty)
  have new: "valid_ref ?ns1 (int (length ns))" by (simp add: valid_ref_def)
  have last: "valid_ref ns (int (length ns) - 1)" using assms(3) by (simp add: valid_ref_def)
  have A: "graph_ok (addEdge srt f s (int (length ns)) ?ns1)" for f s
    using assms(1) ok1 new by (rule graph_ok_addEdge)
  have B: "graph_ok (addEdge srt f' s' (int (length ns)) (addEdge srt f s (int (length ns)) ?ns1))"
    for f s f' s'
    using assms(1) A by (rule graph_ok_addEdge) (simp add: valid_ref_def)
  have C: "graph_ok (addEdge srt f s (int (length ns) - 1) ns)" for f s
    using assms(1,2) last by (rule graph_ok_addEdge)
  have D: "graph_ok (addEdge srt f' s' prev (addEdge srt f s (int (length ns)) ?ns1))"
    if "0 \<le> prev" for f s f' s'
    using assms(1) A by (rule graph_ok_addEdge) (use that assms(4) in \<open>simp add: valid_ref_def\<close>)
  from assms(5) show ?thesis
    using A B C D assms(3,4)
    by (auto simp: setPattern_step_def createNewNode_def lastNodeIdx_def Let_def addEdge_char_eq
        split: if_splits)
qed

lemma setPattern_loop_ok:
  "std_sort_spec srt \<Longrightarrow> graph_ok ns \<Longrightarrow> 0 < length ns \<Longrightarrow> prev < int (length ns) \<Longrightarrow>
   graph_ok (setPattern_loop srt pattern pos prev ns) \<and>
   0 < length (setPattern_loop srt pattern pos prev ns)"
proof (induction srt pattern pos prev ns rule: setPattern_loop.induct)
  case (1 srt pattern patternPos prev ns)
  show ?case
  proof (cases "patternPos < length pattern")
    case False
    with "1.prems" show ?thesis by (simp add: setPattern_loop.simps [of _ pattern patternPos])
  next
    case True
    obtain ns' prev' pos' where st: "setPattern_step srt pattern patternPos prev ns = (ns', prev', pos')"
      by (cases "setPattern_step srt pattern patternPos prev ns") auto
    from setPattern_step_ok [OF "1.prems"(1-4) st]
    have "graph_ok ns'" "0 < length ns'" "prev' < int (length ns')" by auto
    with "1.IH" [OF True st [symmetric] refl "1.prems"(1)] True st
    show ?thesis by (simp add: setPattern_loop.simps [of _ pattern patternPos])
  qed
qed

lemma graph_ok_setPattern:
  assumes "std_sort_spec srt" "pattern \<noteq> []"
  shows "graph_ok (setPattern srt pattern []) \<and> 0 < length (setPattern srt pattern [])"
proof -
  let ?ns1 = "setPattern_loop srt pattern 0 (- 1) [\<lparr>edges = []\<rparr>]"
  have "graph_ok [\<lparr>edges = []\<rparr>]" by (simp add: graph_ok_def node_ok_def)
  with assms(1) have ok: "graph_ok ?ns1 \<and> 0 < length ?ns1"
    by (intro setPattern_loop_ok) auto
  then have "graph_ok (addEdge srt (lastNodeIdx ?ns1) (InputSymbol_of eEndOfLine) SUCCESS_NODE_IDX ?ns1)"
    using assms(1) by (intro graph_ok_addEdge) (auto simp: valid_ref_def)
  then show ?thesis using assms(2) ok by (simp add: setPattern_def Let_def)
qed

lemma setPattern_step_edge_sets:
  assumes "std_sort_spec srt" "std_sort_spec srt'" "edge_sets ns = edge_sets ns'"
  shows "edge_sets (fst (setPattern_step srt pattern pos prev ns)) =
           edge_sets (fst (setPattern_step srt' pattern pos prev ns')) \<and>
         snd (setPattern_step srt pattern pos prev ns) = snd (setPattern_step srt' pattern pos prev ns')"
proof -
  have len: "length ns = length ns'" using assms(3) by (rule edge_sets_length)
  have app: "edge_sets (ns @ [\<lparr>edges = []\<rparr>]) = edge_sets (ns' @ [\<lparr>edges = []\<rparr>])"
    using assms(3) by (rule edge_sets_append)
  note E = edge_sets_addEdge [OF assms(1,2)]
  show ?thesis
    by (simp add: setPattern_step_def createNewNode_def lastNodeIdx_def Let_def addEdge_char_eq
        len E app assms(3))
qed

lemma setPattern_loop_edge_sets:
  "std_sort_spec srt \<Longrightarrow> std_sort_spec srt' \<Longrightarrow> edge_sets ns = edge_sets ns' \<Longrightarrow>
   edge_sets (setPattern_loop srt pattern pos prev ns) =
   edge_sets (setPattern_loop srt' pattern pos prev ns')"
proof (induction srt pattern pos prev ns arbitrary: ns' rule: setPattern_loop.induct)
  case (1 srt pattern patternPos prev ns)
  show ?case
  proof (cases "patternPos < length pattern")
    case False
    with "1.prems" show ?thesis by (simp add: setPattern_loop.simps [of _ pattern patternPos])
  next
    case True
    obtain a p q where st: "setPattern_step srt pattern patternPos prev ns = (a, p, q)"
      by (cases "setPattern_step srt pattern patternPos prev ns") auto
    obtain b p' q' where st': "setPattern_step srt' pattern patternPos prev ns' = (b, p', q')"
      by (cases "setPattern_step srt' pattern patternPos prev ns'") auto
    from setPattern_step_edge_sets [OF "1.prems", of pattern patternPos prev] st st'
    have eq: "edge_sets a = edge_sets b" "p' = p" "q' = q" by auto
    from "1.IH" [OF True st [symmetric] refl "1.prems"(1,2) eq(1)] True st st' eq
    show ?thesis by (simp add: setPattern_loop.simps [of _ pattern patternPos])
  qed
qed

lemma edge_sets_setPattern:
  assumes "std_sort_spec srt" "std_sort_spec srt'"
  shows "edge_sets (setPattern srt pattern []) = edge_sets (setPattern srt' pattern [])"
proof (cases "pattern = []")
  case True
  then show ?thesis by (simp add: setPattern_def)
next
  case False
  let ?a = "setPattern_loop srt pattern 0 (- 1) [\<lparr>edges = []\<rparr>]"
  let ?b = "setPattern_loop srt' pattern 0 (- 1) [\<lparr>edges = []\<rparr>]"
  have eq: "edge_sets ?a = edge_sets ?b"
    by (rule setPattern_loop_edge_sets [OF assms]) simp
  have last: "lastNodeIdx ?a = lastNodeIdx ?b"
    using edge_sets_length [OF eq] by (simp add: lastNodeIdx_def)
  have "edge_sets (addEdge srt (lastNodeIdx ?a) (InputSymbol_of eEndOfLine) SUCCESS_NODE_IDX ?a) =
        edge_sets (addEdge srt' (lastNodeIdx ?a) (InputSymbol_of eEndOfLine) SUCCESS_NODE_IDX ?b)"
    using assms eq by (rule edge_sets_addEdge)
  with False last show ?thesis by (simp add: setPattern_def Let_def)
qed

section \<open>The search and the sequences of edge traversals\<close>

lemma selectEdge_Some:
  "int edgeIdx < edgeCount node \<Longrightarrow>
   selectEdge node (int edgeIdx) s = Some x \<longleftrightarrow>
     InputSymbol_match (symbol (edges node ! edgeIdx)) s \<and> x = nextNodeId (edges node ! edgeIdx)"
  by (auto simp: selectEdge_def Let_def)

lemma selectEdge_None:
  "int edgeIdx < edgeCount node \<Longrightarrow>
   selectEdge node (int edgeIdx) s = None \<longleftrightarrow> \<not> InputSymbol_match (symbol (edges node ! edgeIdx)) s"
  by (auto simp: selectEdge_def Let_def)

lemma follows_iff:
  "(\<exists>es. follows ns path nodeIdx pathPos es) \<longleftrightarrow>
     nodeIdx = SUCCESS_NODE_IDX \<or>
     (0 \<le> nodeIdx \<and> nodeIdx < int (length ns) \<and> 0 \<le> pathPos \<and> pathPos \<le> int (length path) \<and>
      (\<exists>e \<in> set (edges (ns ! nat nodeIdx)). edge_leads ns path pathPos (string_at path pathPos) e))"
  (is "?L \<longleftrightarrow> ?R")
proof
  assume ?L
  then obtain es where "follows ns path nodeIdx pathPos es" ..
  then show ?R by (cases es) (auto simp: edge_leads_def)
next
  assume ?R
  then show ?L
  proof
    assume "nodeIdx = SUCCESS_NODE_IDX"
    then have "follows ns path nodeIdx pathPos []" by simp
    then show ?L ..
  next
    assume r: "0 \<le> nodeIdx \<and> nodeIdx < int (length ns) \<and> 0 \<le> pathPos \<and> pathPos \<le> int (length path) \<and>
      (\<exists>e \<in> set (edges (ns ! nat nodeIdx)). edge_leads ns path pathPos (string_at path pathPos) e)"
    then obtain e es where "e \<in> set (edges (ns ! nat nodeIdx))"
      "InputSymbol_match (symbol e) (string_at path pathPos)"
      "follows ns path (nextNodeId e) (pathPos + 1) es"
      by (auto simp: edge_leads_def)
    with r have "follows ns path nodeIdx pathPos (e # es)" by simp
    then show ?L ..
  qed
qed

lemma tryMatch_follows_aux:
  "graph_ok ns \<longrightarrow> valid_ref ns nodeIdx \<longrightarrow>
     tryMatchPatternPart ns nodeIdx path pathPos = Inr (\<exists>es. follows ns path nodeIdx pathPos es)"
  "graph_ok ns \<longrightarrow> node_ok ns currentNode \<longrightarrow>
     tryEdges ns currentNode s path pathPos edgeIdx =
       Inr (\<exists>j. edgeIdx \<le> j \<and> j < length (edges currentNode) \<and>
                edge_leads ns path pathPos s (edges currentNode ! j))"
proof (induction ns nodeIdx path pathPos and ns currentNode s path pathPos edgeIdx
    rule: tryMatchPatternPart_tryEdges.induct)
  case (1 ns nodeIdx path pathPos)
  show ?case
  proof (intro impI)
    assume ok: "graph_ok ns" and ref: "valid_ref ns nodeIdx"
    consider (succ) "nodeIdx = SUCCESS_NODE_IDX"
      | (out) "nodeIdx \<noteq> SUCCESS_NODE_IDX" "pathPos < 0 \<or> int (length path) < pathPos"
      | (go) "nodeIdx \<noteq> SUCCESS_NODE_IDX" "\<not> (pathPos < 0 \<or> int (length path) < pathPos)"
      by blast
    then show "tryMatchPatternPart ns nodeIdx path pathPos =
        Inr (\<exists>es. follows ns path nodeIdx pathPos es)"
    proof cases
      case succ
      then show ?thesis by (simp add: tryMatchPatternPart.simps follows_iff)
    next
      case out
      then show ?thesis by (auto simp: tryMatchPatternPart.simps follows_iff)
    next
      case go
      from go(1) ref have rng: "0 \<le> nodeIdx" "nodeIdx < int (length ns)"
        by (auto simp: valid_ref_def)
      then have ne: "nodeIdx \<noteq> ERROR_NODE_IDX" "\<not> (nodeIdx < 0 \<or> int (length ns) \<le> nodeIdx)"
        by (auto simp: ERROR_NODE_IDX_def)
      from rng ok have nok: "node_ok ns (ns ! nat nodeIdx)"
        by (simp add: graph_ok_def)
      have "tryMatchPatternPart ns nodeIdx path pathPos =
          tryEdges ns (ns ! nat nodeIdx) (string_at path pathPos) path pathPos 0"
        using go ne by (simp add: tryMatchPatternPart.simps)
      also have "\<dots> = Inr (\<exists>j. 0 \<le> j \<and> j < length (edges (ns ! nat nodeIdx)) \<and>
          edge_leads ns path pathPos (string_at path pathPos) (edges (ns ! nat nodeIdx) ! j))"
        using "1.IH" [OF go(1) ne(1) go(2) ne(2)] ok nok by simp
      also have "\<dots> = Inr (\<exists>es. follows ns path nodeIdx pathPos es)"
      proof -
        have "(\<exists>j. 0 \<le> j \<and> j < length (edges (ns ! nat nodeIdx)) \<and>
            edge_leads ns path pathPos (string_at path pathPos) (edges (ns ! nat nodeIdx) ! j)) \<longleftrightarrow>
          (\<exists>e \<in> set (edges (ns ! nat nodeIdx)).
            edge_leads ns path pathPos (string_at path pathPos) e)"
          by (metis in_set_conv_nth le0)
        with go rng show ?thesis by (simp add: follows_iff [of ns path nodeIdx])
      qed
      finally show ?thesis .
    qed
  qed
next
  case (2 ns currentNode s path pathPos edgeIdx)
  show ?case
  proof (intro impI)
    assume ok: "graph_ok ns" and nok: "node_ok ns currentNode"
    let ?R = "\<lambda>i. \<exists>j. i \<le> j \<and> j < length (edges currentNode) \<and>
                edge_leads ns path pathPos s (edges currentNode ! j)"
    show "tryEdges ns currentNode s path pathPos edgeIdx = Inr (?R edgeIdx)"
    proof (cases "int edgeIdx < edgeCount currentNode")
      case False
      then show ?thesis by (auto simp: tryEdges.simps [of ns currentNode s path pathPos edgeIdx] edgeCount_def)
    next
      case True
      then have lt: "edgeIdx < length (edges currentNode)" by (simp add: edgeCount_def)
      let ?e = "edges currentNode ! edgeIdx"
      have step: "?R edgeIdx \<longleftrightarrow> edge_leads ns path pathPos s ?e \<or> ?R (edgeIdx + 1)"
        by (metis Suc_eq_plus1 Suc_leI le_neq_implies_less order_refl Suc_leD lt)
      show ?thesis
      proof (cases "InputSymbol_match (symbol ?e) s")
        case False
        then have sel: "selectEdge currentNode (int edgeIdx) s = None"
          using True by (simp add: selectEdge_None)
        have "tryEdges ns currentNode s path pathPos edgeIdx =
            tryEdges ns currentNode s path pathPos (edgeIdx + 1)"
          using True sel by (simp add: tryEdges.simps [of ns currentNode s path pathPos edgeIdx])
        also have "\<dots> = Inr (?R (edgeIdx + 1))"
          using "2.IH"(1) [OF True sel] ok nok by simp
        finally show ?thesis using step False by (simp add: edge_leads_def)
      next
        case m: True
        then have sel: "selectEdge currentNode (int edgeIdx) s = Some (nextNodeId ?e)"
          using True by (simp add: selectEdge_Some)
        from nok lt have "valid_ref ns (nextNodeId ?e)" by (simp add: node_ok_def)
        with "2.IH"(2) [OF True sel] ok
        have rec: "tryMatchPatternPart ns (nextNodeId ?e) path (pathPos + 1) =
            Inr (\<exists>es. follows ns path (nextNodeId ?e) (pathPos + 1) es)" by simp
        show ?thesis
        proof (cases "\<exists>es. follows ns path (nextNodeId ?e) (pathPos + 1) es")
          case True
          with rec m step show ?thesis
            using \<open>int edgeIdx < edgeCount currentNode\<close> sel
            by (simp add: tryEdges.simps [of ns currentNode s path pathPos edgeIdx] edge_leads_def)
        next
          case False
          with rec have r: "tryMatchPatternPart ns (nextNodeId ?e) path (pathPos + 1) = Inr False"
            by simp
          have "tryEdges ns currentNode s path pathPos edgeIdx =
              tryEdges ns currentNode s path pathPos (edgeIdx + 1)"
            using True sel r by (simp add: tryEdges.simps [of ns currentNode s path pathPos edgeIdx])
          also have "\<dots> = Inr (?R (edgeIdx + 1))"
            using "2.IH"(3) [OF True sel r refl] ok nok by simp
          finally show ?thesis using step False by (simp add: edge_leads_def)
        qed
      qed
    qed
  qed
qed

lemma follows_edge_sets:
  "edge_sets ns = edge_sets ns' \<Longrightarrow>
   follows ns path nodeIdx pathPos es = follows ns' path nodeIdx pathPos es"
proof (induction es arbitrary: nodeIdx pathPos)
  case Nil
  show ?case by simp
next
  case (Cons e es)
  have len: "length ns = length ns'" using Cons.prems by (rule edge_sets_length)
  have "set (edges (ns ! nat nodeIdx)) = set (edges (ns' ! nat nodeIdx))"
    if "0 \<le> nodeIdx" "nodeIdx < int (length ns)"
    using Cons.prems that by (intro edge_sets_nth) auto
  with Cons.IH [OF Cons.prems] len show ?case by auto
qed

lemma tryMatch_follows:
  "graph_ok ns \<Longrightarrow> valid_ref ns nodeIdx \<Longrightarrow>
   tryMatchPatternPart ns nodeIdx path pathPos = Inr (\<exists>es. follows ns path nodeIdx pathPos es)"
  using tryMatch_follows_aux(1) by blast

lemma valid_ref_0: "0 < length ns \<Longrightarrow> valid_ref ns 0"
  by (simp add: valid_ref_def)

lemma tryMatch_edge_sets:
  assumes "graph_ok ns" "graph_ok ns'" "edge_sets ns = edge_sets ns'" "valid_ref ns nodeIdx"
  shows "tryMatchPatternPart ns nodeIdx path pathPos = tryMatchPatternPart ns' nodeIdx path pathPos"
proof -
  have "valid_ref ns' nodeIdx"
    using assms(4) edge_sets_length [OF assms(3)] by (simp add: valid_ref_def)
  then show ?thesis
    using assms by (simp add: tryMatch_follows follows_edge_sets [OF assms(3)])
qed


lemma Node_addEdge_char_eq:
  "Node_addEdge_char srt c t node = Node_addEdge srt \<lparr>stype = eOneSymbol, sym = c\<rparr> t node"
  by (simp add: Node_addEdge_char_def Node_addEdge_def)

lemma sorted_Node_addEdge:
  "std_sort_spec srt \<Longrightarrow> sorted (map edge_rank (edges (Node_addEdge srt s t node)))"
  by (simp add: Node_addEdge_def std_sort_spec_def sorted_by_priority [symmetric])

lemma mset_Node_addEdge:
  "std_sort_spec srt \<Longrightarrow>
   mset (edges (Node_addEdge srt s t node)) =
     add_mset \<lparr>symbol = s, nextNodeId = t\<rparr> (mset (edges node))"
  by (simp add: Node_addEdge_def std_sort_spec_def)

lemma nodes_sorted_append_empty:
  "nodes_sorted ns \<Longrightarrow> nodes_sorted (ns @ [\<lparr>edges = []\<rparr>])"
  by (simp add: nodes_sorted_def)

lemma nodes_sorted_addEdge:
  assumes "std_sort_spec srt" "nodes_sorted ns"
  shows "nodes_sorted (addEdge srt f s t ns)"
proof -
  have "set (addEdge srt f s t ns) \<subseteq> insert (Node_addEdge srt s t (ns ! nat f)) (set ns)"
    unfolding addEdge_def by (rule set_update_subset_insert)
  with assms show ?thesis
    by (auto simp: nodes_sorted_def sorted_Node_addEdge)
qed

lemma nodes_sorted_step:
  assumes "std_sort_spec srt" "nodes_sorted ns"
  shows "nodes_sorted (fst (setPattern_step srt pattern pos prev ns))"
proof -
  note A = nodes_sorted_addEdge [OF assms(1)]
  note B = nodes_sorted_append_empty [OF assms(2)]
  show ?thesis
    by (simp add: setPattern_step_def createNewNode_def lastNodeIdx_def Let_def addEdge_char_eq
        A B assms(2))
qed

lemma nodes_sorted_loop:
  "std_sort_spec srt \<Longrightarrow> nodes_sorted ns \<Longrightarrow>
   nodes_sorted (setPattern_loop srt pattern pos prev ns)"
proof (induction srt pattern pos prev ns rule: setPattern_loop.induct)
  case (1 srt pattern patternPos prev ns)
  show ?case
  proof (cases "patternPos < length pattern")
    case False
    with "1.prems" show ?thesis by (simp add: setPattern_loop.simps [of _ pattern patternPos])
  next
    case True
    obtain ns' prev' pos' where st: "setPattern_step srt pattern patternPos prev ns = (ns', prev', pos')"
      by (cases "setPattern_step srt pattern patternPos prev ns") auto
    from nodes_sorted_step [OF "1.prems", of pattern patternPos prev] st
    have "nodes_sorted ns'" by simp
    with "1.IH" [OF True st [symmetric] refl "1.prems"(1)] True st
    show ?thesis by (simp add: setPattern_loop.simps [of _ pattern patternPos])
  qed
qed

lemma nodes_sorted_setPattern:
  assumes "std_sort_spec srt" "nodes_sorted ns"
  shows "nodes_sorted (setPattern srt pattern ns)"
proof (cases "pattern = []")
  case True
  with assms(2) show ?thesis by (simp add: setPattern_def)
next
  case False
  have "nodes_sorted (setPattern_loop srt pattern 0 (- 1) (ns @ [\<lparr>edges = []\<rparr>]))"
    using assms by (intro nodes_sorted_loop nodes_sorted_append_empty)
  then show ?thesis
    using False assms(1) by (simp add: setPattern_def Let_def nodes_sorted_addEdge)
qed

lemma called_valid:
  assumes "graph_ok ns" "0 < length ns"
  shows "called ns path nodeIdx pathPos \<Longrightarrow> valid_ref ns nodeIdx"
proof (induction rule: called.induct)
  case first_call
  show ?case using assms(2) by (rule valid_ref_0)
next
  case (recursive_call nodeIdx pathPos edgeIdx nextId)
  from recursive_call.hyps(5,6,7)
  have "nextId = nextNodeId (edges (ns ! nat nodeIdx) ! edgeIdx)"
    "edgeIdx < length (edges (ns ! nat nodeIdx))"
    by (auto simp: selectEdge_Some edgeCount_def)
  moreover from recursive_call.hyps(5) have "nat nodeIdx < length ns" by auto
  with assms(1) have "node_ok ns (ns ! nat nodeIdx)"
    by (simp add: graph_ok_def)
  ultimately show ?case by (simp add: node_ok_def)
qed

lemma valid_ref_not_error: "valid_ref ns n \<Longrightarrow> n \<noteq> ERROR_NODE_IDX"
  by (auto simp: valid_ref_def ERROR_NODE_IDX_def SUCCESS_NODE_IDX_def)

lemma graph_ok_edge_sets:
  assumes "edge_sets ns = edge_sets ns'" "graph_ok ns"
  shows "graph_ok ns'"
proof -
  have len: "length ns = length ns'" using assms(1) by (rule edge_sets_length)
  have "valid_ref ns' (nextNodeId e)" if "i < length ns'" "e \<in> set (edges (ns' ! i))" for i e
  proof -
    from that len assms(1) have "e \<in> set (edges (ns ! i))"
      using edge_sets_nth [of ns ns' i] by simp
    moreover from that len have "ns ! i \<in> set ns" by simp
    ultimately have "valid_ref ns (nextNodeId e)"
      using assms(2) by (auto simp: graph_ok_def node_ok_def)
    with len show ?thesis by (simp add: valid_ref_def)
  qed
  then show ?thesis
    unfolding graph_ok_def node_ok_def by (metis in_set_conv_nth)
qed

section \<open>Acceptance of the rest of a path\<close>

lemma follows_past_end:
  "int (length path) < pathPos \<Longrightarrow>
   (\<exists>es. follows ns path nodeIdx pathPos es) \<longleftrightarrow> nodeIdx = SUCCESS_NODE_IDX"
  by (simp add: follows_iff)

lemma accepts_follows:
  "0 \<le> pathPos \<Longrightarrow> pathPos \<le> int (length path) \<Longrightarrow>
   (\<exists>es. follows ns path nodeIdx pathPos es) \<longleftrightarrow> accepts ns nodeIdx (drop (nat pathPos) path)"
proof (induction "length path - nat pathPos" arbitrary: pathPos nodeIdx)
  case 0
  then have eq: "pathPos = int (length path)" by simp
  have at: "string_at path pathPos = END_OF_LINE" using eq by (simp add: string_at_def)
  have nxt: "(\<exists>es. follows ns path m (pathPos + 1) es) \<longleftrightarrow> m = SUCCESS_NODE_IDX" for m
    using eq by (intro follows_past_end) simp
  show ?case
    using eq by (simp add: follows_iff [of ns path nodeIdx] edge_leads_def at [unfolded eq]
        nxt [unfolded eq])
next
  case (Suc k)
  then have lt: "nat pathPos < length path" by simp
  then have dr: "drop (nat pathPos) path = path ! nat pathPos # drop (nat (pathPos + 1)) path"
    using Suc.prems by (simp add: Cons_nth_drop_Suc nat_add_distrib)
  have at: "string_at path pathPos = path ! nat pathPos"
    using lt Suc.prems by (auto simp: string_at_def)
  have IH: "(\<exists>es. follows ns path m (pathPos + 1) es) \<longleftrightarrow> accepts ns m (drop (nat (pathPos + 1)) path)"
    for m
    using Suc.hyps(2) Suc.prems lt by (intro Suc.hyps(1)) auto
  show ?case
    using Suc.prems by (simp add: follows_iff [of ns path nodeIdx] edge_leads_def at dr IH)
qed

lemma search_accepts:
  "graph_ok ns \<Longrightarrow> valid_ref ns nodeIdx \<Longrightarrow>
   tryMatchPatternPart ns nodeIdx path 0 = Inr (accepts ns nodeIdx path)"
  using accepts_follows [of 0 path ns nodeIdx] by (simp add: tryMatch_follows)

lemma accepts_edge_sets:
  "edge_sets ns = edge_sets ns' \<Longrightarrow> accepts ns nodeIdx w = accepts ns' nodeIdx w"
proof (induction w arbitrary: nodeIdx)
  case Nil
  have len: "length ns = length ns'" using Nil by (rule edge_sets_length)
  have "set (edges (ns ! nat nodeIdx)) = set (edges (ns' ! nat nodeIdx))"
    if "0 \<le> nodeIdx" "nodeIdx < int (length ns)"
    using Nil that by (intro edge_sets_nth) auto
  with len show ?case by auto
next
  case (Cons c w)
  have len: "length ns = length ns'" using Cons.prems by (rule edge_sets_length)
  have "set (edges (ns ! nat nodeIdx)) = set (edges (ns' ! nat nodeIdx))"
    if "0 \<le> nodeIdx" "nodeIdx < int (length ns)"
    using Cons.prems that by (intro edge_sets_nth) auto
  with Cons.IH [OF Cons.prems] len show ?case by auto
qed

lemma match_accepts:
  assumes "std_sort_spec srt" and "pattern \<noteq> []"
  shows "match (setPattern srt pattern []) path =
           Inr (path \<noteq> [] \<and> accepts (setPattern insertion_sort pattern []) 0 path)"
proof -
  let ?g = "setPattern srt pattern []"
  have g: "graph_ok ?g" "0 < length ?g"
    using graph_ok_setPattern [OF assms] by auto
  have "accepts ?g 0 path = accepts (setPattern insertion_sort pattern []) 0 path"
    using edge_sets_setPattern [OF assms(1) std_sort_spec_insertion_sort] by (rule accepts_edge_sets)
  with search_accepts [OF g(1) valid_ref_0 [OF g(2)], of path] g(2) show ?thesis
    by (auto simp: match_def)
qed

section \<open>The paths that four compiled patterns accept\<close>


lemma accepts_SUCCESS [simp]: "accepts ns (- 2) w"
  by (cases w) (simp_all add: SUCCESS_NODE_IDX_def)













section \<open>Graphs without ties\<close>











section \<open>The walk that the search finds\<close>

lemma found_simps [simp]:
  "found (Inl err) = Inl err" "found (Inr None) = Inr False" "found (Inr (Some es)) = Inr True"
  by (simp_all add: found_def)

lemma walk_is_search_aux:
  "found (tryMatchPatternPart_walk ns nodeIdx path pathPos) =
     tryMatchPatternPart ns nodeIdx path pathPos"
  "found (tryEdges_walk ns nodeIdx' s path pathPos edgeIdx) =
     tryEdges ns (ns ! nat nodeIdx') s path pathPos edgeIdx"
proof (induction ns nodeIdx path pathPos and ns nodeIdx' s path pathPos edgeIdx
    rule: tryMatchPatternPart_walk_tryEdges_walk.induct)
  case (1 ns nodeIdx path pathPos)
  then show ?case
    by (simp add: tryMatchPatternPart_walk.simps [of ns nodeIdx path pathPos]
        tryMatchPatternPart.simps [of ns nodeIdx path pathPos])
next
  case (2 ns nodeIdx s path pathPos edgeIdx)
  note L = tryEdges_walk.simps [of ns nodeIdx s path pathPos edgeIdx]
  note R = tryEdges.simps [of ns "ns ! nat nodeIdx" s path pathPos edgeIdx]
  show ?case
  proof (cases "int edgeIdx < edgeCount (ns ! nat nodeIdx)")
    case False
    then show ?thesis by (simp add: L R)
  next
    case True
    show ?thesis
    proof (cases "selectEdge (ns ! nat nodeIdx) (int edgeIdx) s")
      case None
      with "2.IH"(1) [OF True None] True show ?thesis by (simp add: L R)
    next
      case (Some nextId)
      note rec = "2.IH"(2) [OF True Some, symmetric]
      show ?thesis
      proof (cases "tryMatchPatternPart_walk ns nextId path (pathPos + 1)")
        case (Inl err)
        with True Some show ?thesis by (simp add: L R rec)
      next
        case (Inr r)
        show ?thesis
        proof (cases r)
          case None
          with "2.IH"(3) [OF True Some Inr None] Inr Some True show ?thesis
            by (simp add: L R rec)
        next
          case (Some es)
          with Inr \<open>selectEdge (ns ! nat nodeIdx) (int edgeIdx) s = Some nextId\<close> True
          show ?thesis by (simp add: L R rec)
        qed
      qed
    qed
  qed
qed

lemma walk_is_search:
  "found (tryMatchPatternPart_walk ns nodeIdx path pathPos) =
     tryMatchPatternPart ns nodeIdx path pathPos"
  by (rule walk_is_search_aux(1))

section \<open>The failures of match\<close>

lemma tryMatch_not_NoPattern_aux:
  "tryMatchPatternPart ns nodeIdx path pathPos \<noteq> Inl NoPattern"
  "tryEdges ns currentNode s path pathPos edgeIdx \<noteq> Inl NoPattern"
proof (induction ns nodeIdx path pathPos and ns currentNode s path pathPos edgeIdx
    rule: tryMatchPatternPart_tryEdges.induct)
  case (1 ns nodeIdx path pathPos)
  then show ?case
    by (simp add: tryMatchPatternPart.simps [of ns nodeIdx path pathPos])
next
  case (2 ns currentNode s path pathPos edgeIdx)
  note R = tryEdges.simps [of ns currentNode s path pathPos edgeIdx]
  show ?case
  proof (cases "int edgeIdx < edgeCount currentNode")
    case False
    then show ?thesis by (simp add: R)
  next
    case True
    show ?thesis
    proof (cases "selectEdge currentNode (int edgeIdx) s")
      case None
      with "2.IH"(1) [OF True None] True show ?thesis by (simp add: R)
    next
      case (Some nextId)
      note rec = "2.IH"(2) [OF True Some]
      show ?thesis
      proof (cases "tryMatchPatternPart ns nextId path (pathPos + 1)")
        case (Inl err)
        with rec True Some show ?thesis by (simp add: R)
      next
        case (Inr b)
        show ?thesis
        proof (cases b)
          case True
          with Inr Some \<open>int edgeIdx < edgeCount currentNode\<close> show ?thesis by (simp add: R)
        next
          case False
          then have bF: "b = False" by simp
          with "2.IH"(3) [OF True Some Inr bF] Inr Some True show ?thesis by (simp add: R)
        qed
      qed
    qed
  qed
qed

lemma match_NoPattern_iff: "match ns path = Inl NoPattern \<longleftrightarrow> ns = [] \<and> path \<noteq> []"
  using tryMatch_not_NoPattern_aux(1) [of ns 0 path 0] by (simp add: match_def)

section \<open>The search is exhaustive\<close>

text \<open>
  C1. On the graph that \<^verbatim>\<open>setPattern\<close> builds from a non-empty pattern, whatever
  \<^verbatim>\<open>std::sort\<close> does with edges of equal priority, \<^verbatim>\<open>tryMatchPatternPart(0, path, 0)\<close>
  returns a boolean, and it returns true exactly when some sequence of edge traversals
  from node 0 at position 0, one path character (or the end marker) per edge, reaches the
  success sentinel. The order in which the edges of a node are tried does not matter:
  any array with the same set of edges at each node gives the same result.
\<close>

theorem tryMatchPatternPart_exhaustive:
  assumes "std_sort_spec srt" and "pattern \<noteq> []"
  shows "tryMatchPatternPart (setPattern srt pattern []) 0 path 0 =
           Inr (\<exists>es. follows (setPattern srt pattern []) path 0 0 es) \<and>
         (\<forall>ns'. edge_sets ns' = edge_sets (setPattern srt pattern []) \<longrightarrow>
            tryMatchPatternPart ns' 0 path 0 =
            tryMatchPatternPart (setPattern srt pattern []) 0 path 0)"
proof -
  let ?g = "setPattern srt pattern []"
  have g: "graph_ok ?g" "0 < length ?g"
    using graph_ok_setPattern [OF assms] by auto
  have ref: "valid_ref ?g 0" using g(2) by (rule valid_ref_0)
  have "tryMatchPatternPart ns' 0 path 0 = tryMatchPatternPart ?g 0 path 0"
    if "edge_sets ns' = edge_sets ?g" for ns'
  proof -
    have "graph_ok ns'" using that [symmetric] g(1) by (rule graph_ok_edge_sets)
    with g(1) that ref show ?thesis
      using tryMatch_edge_sets [of ?g ns' 0 path 0] by simp
  qed
  with tryMatch_follows [OF g(1) ref] show ?thesis by blast
qed

theorem tryMatchPatternPart_exhaustive_witness:
  "std_sort_spec insertion_sort \<and> ''/a*b'' \<noteq> [] \<and>
   tryMatchPatternPart (setPattern insertion_sort ''/a*b'' []) 0 ''/ab'' 0 = Inr True \<and>
   (\<exists>es. follows (setPattern insertion_sort ''/a*b'' []) ''/ab'' 0 0 es)"
proof -
  have ev: "tryMatchPatternPart (setPattern insertion_sort ''/a*b'' []) 0 ''/ab'' 0 = Inr True"
    by code_simp
  have ne: "''/a*b'' \<noteq> []" by simp
  from tryMatchPatternPart_exhaustive [OF std_sort_spec_insertion_sort ne, of "''/ab''"] ev
  have "\<exists>es. follows (setPattern insertion_sort ''/a*b'' []) ''/ab'' 0 0 es" by simp
  with ev ne std_sort_spec_insertion_sort show ?thesis by blast
qed

section \<open>The single star\<close>



section \<open>The double star\<close>




section \<open>Backtracking\<close>



section \<open>Empty inputs\<close>

text \<open>
  C5 (fails on the code). The specification has it that an empty pattern or an empty path always
  signals a misuse failure. \<^verbatim>\<open>match\<close> tests \<^verbatim>\<open>path.empty()\<close> first and returns plain
  false, here on the machine compiled from \<open>/a\<close>; \<^verbatim>\<open>setPattern\<close> returns from an empty
  pattern without a signal, leaving the array as it was.
\<close>

theorem empty_path_returns_false:
  "match (setPattern insertion_sort ''/a'' []) [] = Inr False \<and>
   setPattern insertion_sort [] [] = []"
  by (simp add: match_def setPattern_def)

text \<open>
  C5, as the code has it: \<^verbatim>\<open>match\<close> on an empty path returns false on every machine;
  \<^verbatim>\<open>setPattern\<close> on an empty pattern leaves the machine unchanged; \<^verbatim>\<open>match\<close> of a
  non-empty path on the machine that \<^verbatim>\<open>setPattern\<close> of an empty pattern leaves of a
  new one signals the misuse failure; \<^verbatim>\<open>match\<close> signals the misuse failure exactly
  when the path is not empty and the machine has no nodes, and in no other case; on the
  machine compiled from a non-empty pattern \<^verbatim>\<open>match\<close> returns a boolean for every
  path.
\<close>

theorem empty_input_behaviour:
  "match ns [] = Inr False \<and> setPattern srt [] ns = ns \<and>
   (path \<noteq> [] \<longrightarrow> match (setPattern srt [] []) path = Inl NoPattern) \<and>
   (match ns path = Inl NoPattern \<longleftrightarrow> ns = [] \<and> path \<noteq> []) \<and>
   (std_sort_spec srt \<and> pattern \<noteq> [] \<longrightarrow>
      (\<exists>b. match (setPattern srt pattern []) path = Inr b))"
proof -
  have "\<exists>b. match (setPattern srt pattern []) path = Inr b"
    if "std_sort_spec srt" "pattern \<noteq> []"
    using match_accepts [OF that] by blast
  then show ?thesis
    by (simp add: match_NoPattern_iff) (simp add: match_def setPattern_def)
qed

theorem empty_input_behaviour_witness:
  "''/x'' \<noteq> [] \<and> match (setPattern insertion_sort [] []) ''/x'' = Inl NoPattern \<and>
   match [] [] = Inr False \<and> setPattern insertion_sort [] [] = [] \<and>
   std_sort_spec insertion_sort \<and> ''/a'' \<noteq> [] \<and>
   match (setPattern insertion_sort ''/a'' []) ''/x'' = Inr False \<and>
   match (setPattern insertion_sort ''/a'' []) ''/x'' \<noteq> Inl NoPattern"
proof -
  have ne: "''/x'' \<noteq> []" "''/a'' \<noteq> []" by simp_all
  note t = empty_input_behaviour [of "[]" insertion_sort "''/x''" "''/a''"]
  note u = empty_input_behaviour [of "setPattern insertion_sort ''/a'' []" insertion_sort "''/x''" "''/a''"]
  from t ne have a: "match [] [] = Inr False" "setPattern insertion_sort [] [] = []"
    "match (setPattern insertion_sort [] []) ''/x'' = Inl NoPattern"
    by blast+
  have ev: "match (setPattern insertion_sort ''/a'' []) ''/x'' = Inr False" by code_simp
  from u ne std_sort_spec_insertion_sort
  have "\<exists>b. match (setPattern insertion_sort ''/a'' []) ''/x'' = Inr b" by blast
  with ev have b: "match (setPattern insertion_sort ''/a'' []) ''/x'' \<noteq> Inl NoPattern" by auto
  from a b ev ne std_sort_spec_insertion_sort show ?thesis by blast
qed

section \<open>The order of the edges of a node\<close>

text \<open>
  C7 (fails on the code). The specification has it that after every \<^verbatim>\<open>addEdge\<close> the edges of equal
  priority stand in the order of their insertion. \<^verbatim>\<open>addEdge\<close> calls \<^verbatim>\<open>std::sort\<close>
  with a comparison of the symbol types only, and \<^verbatim>\<open>std::sort\<close> does not promise the
  order of elements that compare equal. The sort of the GNU C++ library partitions a range
  of more than 16 elements. It leaves a segment-character edge to node 1 that stood in
  front of sixteen segment-character edges to node 2 at the tenth place, and so does
  \<^verbatim>\<open>Node::addEdge\<close> when it adds the last of the sixteen. In the graph compiled from
  \<open>/*a\<close> and fifteen stars, node 2 receives a segment-character edge to node 1, fifteen
  to node 2 and the end-of-line edge, in this order; sorting the seventeen leaves the edge
  to node 1 behind eight of the edges to node 2 that were inserted after it. Sorting by
  insertion keeps it in front of them.
\<close>

theorem equal_priority_order_not_kept:
  "libstdcxx_sort_run compare_edges_priority
     (class_edge eAnyPathSegmentSymbol 1 # replicate 16 (class_edge eAnyPathSegmentSymbol 2)) =
     Some (replicate 9 (class_edge eAnyPathSegmentSymbol 2) @
           class_edge eAnyPathSegmentSymbol 1 # replicate 7 (class_edge eAnyPathSegmentSymbol 2)) \<and>
   map nextNodeId (edges (Node_addEdge libstdcxx_sort (InputSymbol_of eAnyPathSegmentSymbol) 2
     \<lparr>edges = class_edge eAnyPathSegmentSymbol 1 #
        replicate 15 (class_edge eAnyPathSegmentSymbol 2)\<rparr>)) =
     [2, 2, 2, 2, 2, 2, 2, 2, 2, 1, 2, 2, 2, 2, 2, 2, 2] \<and>
   libstdcxx_sort_run compare_edges_priority
     (class_edge eAnyPathSegmentSymbol 1 # replicate 15 (class_edge eAnyPathSegmentSymbol 2) @
      [class_edge eEndOfLine (- 2)]) =
     Some (class_edge eEndOfLine (- 2) # replicate 8 (class_edge eAnyPathSegmentSymbol 2) @
           class_edge eAnyPathSegmentSymbol 1 # replicate 7 (class_edge eAnyPathSegmentSymbol 2)) \<and>
   map nextNodeId (edges (setPattern libstdcxx_sort ''/*a***************'' [] ! 2)) =
     [- 2, 2, 2, 2, 2, 2, 2, 2, 2, 1, 2, 2, 2, 2, 2, 2, 2] \<and>
   map nextNodeId (edges (setPattern insertion_sort ''/*a***************'' [] ! 2)) =
     [- 2, 1, 2, 2, 2, 2, 2, 2, 2, 2, 2, 2, 2, 2, 2, 2, 2]"
proof -
  have "libstdcxx_sort_run compare_edges_priority
     (class_edge eAnyPathSegmentSymbol 1 # replicate 16 (class_edge eAnyPathSegmentSymbol 2)) =
     Some (replicate 9 (class_edge eAnyPathSegmentSymbol 2) @
           class_edge eAnyPathSegmentSymbol 1 # replicate 7 (class_edge eAnyPathSegmentSymbol 2))"
    by code_simp
  moreover have "map nextNodeId (edges (Node_addEdge libstdcxx_sort (InputSymbol_of eAnyPathSegmentSymbol) 2
     \<lparr>edges = class_edge eAnyPathSegmentSymbol 1 #
        replicate 15 (class_edge eAnyPathSegmentSymbol 2)\<rparr>)) =
     [2, 2, 2, 2, 2, 2, 2, 2, 2, 1, 2, 2, 2, 2, 2, 2, 2]"
    by code_simp
  moreover have "libstdcxx_sort_run compare_edges_priority
     (class_edge eAnyPathSegmentSymbol 1 # replicate 15 (class_edge eAnyPathSegmentSymbol 2) @
      [class_edge eEndOfLine (- 2)]) =
     Some (class_edge eEndOfLine (- 2) # replicate 8 (class_edge eAnyPathSegmentSymbol 2) @
           class_edge eAnyPathSegmentSymbol 1 # replicate 7 (class_edge eAnyPathSegmentSymbol 2))"
    by code_simp
  moreover have "map nextNodeId (edges (setPattern libstdcxx_sort ''/*a***************'' [] ! 2)) =
     [- 2, 2, 2, 2, 2, 2, 2, 2, 2, 1, 2, 2, 2, 2, 2, 2, 2]"
    by code_simp
  moreover have "map nextNodeId (edges (setPattern insertion_sort ''/*a***************'' [] ! 2)) =
     [- 2, 1, 2, 2, 2, 2, 2, 2, 2, 2, 2, 2, 2, 2, 2, 2, 2]"
    by code_simp
  ultimately show ?thesis by blast
qed

text \<open>
  C7, as the code has it. For every sorting function that keeps the promise of
  \<^verbatim>\<open>std::sort\<close>: after either overload of \<^verbatim>\<open>Node::addEdge\<close> the edge list of the node
  is sorted in ascending priority rank (\<open>eOneSymbol < eEndOfLine < eAnyPathSegmentSymbol
  < eAnySymbol\<close>) and holds exactly the old edges and the new one; each \<^verbatim>\<open>addEdge\<close> of
  the machine keeps every node sorted, and so is every node of a compiled graph. The
  order among edges of equal priority is left to the sorting function.
\<close>

theorem edges_sorted_by_priority:
  assumes "std_sort_spec srt"
  shows "sorted (map edge_rank (edges (Node_addEdge srt s t node))) \<and>
         mset (edges (Node_addEdge srt s t node)) =
           add_mset \<lparr>symbol = s, nextNodeId = t\<rparr> (mset (edges node)) \<and>
         sorted (map edge_rank (edges (Node_addEdge_char srt c t node))) \<and>
         mset (edges (Node_addEdge_char srt c t node)) =
           add_mset \<lparr>symbol = \<lparr>stype = eOneSymbol, sym = c\<rparr>, nextNodeId = t\<rparr> (mset (edges node)) \<and>
         (nodes_sorted ns \<longrightarrow>
            nodes_sorted (addEdge srt f s t ns) \<and> nodes_sorted (addEdge_char srt f c t ns)) \<and>
         nodes_sorted (setPattern srt pattern []) \<and>
         edge_rank \<lparr>symbol = InputSymbol_of eOneSymbol, nextNodeId = t\<rparr> <
           edge_rank \<lparr>symbol = InputSymbol_of eEndOfLine, nextNodeId = t\<rparr> \<and>
         edge_rank \<lparr>symbol = InputSymbol_of eEndOfLine, nextNodeId = t\<rparr> <
           edge_rank \<lparr>symbol = InputSymbol_of eAnyPathSegmentSymbol, nextNodeId = t\<rparr> \<and>
         edge_rank \<lparr>symbol = InputSymbol_of eAnyPathSegmentSymbol, nextNodeId = t\<rparr> <
           edge_rank \<lparr>symbol = InputSymbol_of eAnySymbol, nextNodeId = t\<rparr>"
proof -
  have "nodes_sorted []" by (simp add: nodes_sorted_def)
  then have "nodes_sorted (setPattern srt pattern [])"
    using assms by (intro nodes_sorted_setPattern)
  moreover have "nodes_sorted (addEdge srt f s t ns) \<and> nodes_sorted (addEdge_char srt f c t ns)"
    if "nodes_sorted ns"
    using assms that by (simp add: addEdge_char_eq nodes_sorted_addEdge)
  ultimately show ?thesis
    using assms
    by (simp add: sorted_Node_addEdge mset_Node_addEdge Node_addEdge_char_eq edge_rank_def
        InputSymbol_of_def)
qed

theorem edges_sorted_by_priority_witness:
  "std_sort_spec reversing_sort \<and>
   nodes_sorted (setPattern reversing_sort ''/*a**b'' []) \<and>
   nodes_sorted [\<lparr>edges = []\<rparr>] \<and>
   nodes_sorted (addEdge reversing_sort 0 (InputSymbol_of eAnySymbol) 0 [\<lparr>edges = []\<rparr>]) \<and>
   sorted (map edge_rank (edges (Node_addEdge reversing_sort (InputSymbol_of eEndOfLine) (- 2)
     \<lparr>edges = [\<lparr>symbol = InputSymbol_of eAnySymbol, nextNodeId = 0\<rparr>]\<rparr>)))"
proof -
  have base: "nodes_sorted [\<lparr>edges = []\<rparr>]" by (simp add: nodes_sorted_def)
  from edges_sorted_by_priority [OF std_sort_spec_reversing_sort,
      of "InputSymbol_of eEndOfLine" "- 2"
         "\<lparr>edges = [\<lparr>symbol = InputSymbol_of eAnySymbol, nextNodeId = 0\<rparr>]\<rparr>"
         "CHR ''a''" "[\<lparr>edges = []\<rparr>]" 0 "''/*a**b''"]
  have a: "sorted (map edge_rank (edges (Node_addEdge reversing_sort (InputSymbol_of eEndOfLine) (- 2)
     \<lparr>edges = [\<lparr>symbol = InputSymbol_of eAnySymbol, nextNodeId = 0\<rparr>]\<rparr>)))"
    and b: "nodes_sorted (setPattern reversing_sort ''/*a**b'' [])"
    by blast+
  from edges_sorted_by_priority [OF std_sort_spec_reversing_sort,
      of "InputSymbol_of eAnySymbol" 0 "\<lparr>edges = []\<rparr>" "CHR ''a''" "[\<lparr>edges = []\<rparr>]" 0 "''/''"] base
  have c: "nodes_sorted (addEdge reversing_sort 0 (InputSymbol_of eAnySymbol) 0 [\<lparr>edges = []\<rparr>])"
    by blast
  from a b c base std_sort_spec_reversing_sort show ?thesis by blast
qed

section \<open>Edge targets\<close>

text \<open>
  C10. In the graph that \<^verbatim>\<open>setPattern\<close> builds from a non-empty pattern every edge
  target is the success sentinel or an index into the array, and none is the failure
  sentinel. So every call of \<^verbatim>\<open>tryMatchPatternPart\<close> that \<^verbatim>\<open>match\<close> gives rise to has
  a node reference other than the failure sentinel (the branch that tests for it is never
  taken), the reference is the success sentinel or in range when \<^verbatim>\<open>nodesArray\<close> is
  indexed, and the search returns a boolean, not an out-of-range access.
\<close>

theorem edge_targets_valid:
  assumes "std_sort_spec srt" and "pattern \<noteq> []"
  shows "(\<forall>node \<in> set (setPattern srt pattern []). \<forall>e \<in> set (edges node).
            nextNodeId e \<noteq> ERROR_NODE_IDX \<and>
            (nextNodeId e = SUCCESS_NODE_IDX \<or>
             (0 \<le> nextNodeId e \<and> nextNodeId e < int (length (setPattern srt pattern []))))) \<and>
         (\<forall>nodeIdx pathPos. called (setPattern srt pattern []) path nodeIdx pathPos \<longrightarrow>
            nodeIdx \<noteq> ERROR_NODE_IDX \<and>
            (nodeIdx = SUCCESS_NODE_IDX \<or>
             (0 \<le> nodeIdx \<and> nodeIdx < int (length (setPattern srt pattern []))))) \<and>
         (\<exists>b. tryMatchPatternPart (setPattern srt pattern []) 0 path 0 = Inr b)"
proof -
  let ?g = "setPattern srt pattern []"
  have g: "graph_ok ?g" "0 < length ?g"
    using graph_ok_setPattern [OF assms] by auto
  have "valid_ref ?g (nextNodeId e)" if "node \<in> set ?g" "e \<in> set (edges node)" for node e
    using g(1) that by (auto simp: graph_ok_def node_ok_def)
  then have edges: "\<forall>node \<in> set ?g. \<forall>e \<in> set (edges node).
      nextNodeId e \<noteq> ERROR_NODE_IDX \<and>
      (nextNodeId e = SUCCESS_NODE_IDX \<or> (0 \<le> nextNodeId e \<and> nextNodeId e < int (length ?g)))"
    using valid_ref_not_error by (fastforce simp: valid_ref_def)
  have "valid_ref ?g nodeIdx" if "called ?g path nodeIdx pathPos" for nodeIdx pathPos
    using g that by (rule called_valid)
  then have calls: "\<forall>nodeIdx pathPos. called ?g path nodeIdx pathPos \<longrightarrow>
      nodeIdx \<noteq> ERROR_NODE_IDX \<and>
      (nodeIdx = SUCCESS_NODE_IDX \<or> (0 \<le> nodeIdx \<and> nodeIdx < int (length ?g)))"
    using valid_ref_not_error by (fastforce simp: valid_ref_def)
  have "\<exists>b. tryMatchPatternPart ?g 0 path 0 = Inr b"
    using tryMatch_follows [OF g(1) valid_ref_0 [OF g(2)]] by blast
  with edges calls show ?thesis by blast
qed

theorem edge_targets_valid_witness:
  "std_sort_spec insertion_sort \<and> ''/a*b'' \<noteq> [] \<and>
   called (setPattern insertion_sort ''/a*b'' []) ''/ab'' 0 0 \<and>
   (0::int) < int (length (setPattern insertion_sort ''/a*b'' [])) \<and>
   (\<exists>b. tryMatchPatternPart (setPattern insertion_sort ''/a*b'' []) 0 ''/ab'' 0 = Inr b)"
proof -
  have ne: "''/a*b'' \<noteq> []" by simp
  note t = edge_targets_valid [OF std_sort_spec_insertion_sort ne, of "''/ab''"]
  have c: "called (setPattern insertion_sort ''/a*b'' []) ''/ab'' 0 0" by (rule first_call)
  from t c have "(0::int) < int (length (setPattern insertion_sort ''/a*b'' []))"
    by (auto simp: SUCCESS_NODE_IDX_def)
  moreover from t have "\<exists>b. tryMatchPatternPart (setPattern insertion_sort ''/a*b'' []) 0 ''/ab'' 0 = Inr b"
    by blast
  ultimately show ?thesis using ne c std_sort_spec_insertion_sort by blast
qed

section \<open>Recursion depth\<close>

lemma fuel_suffices_aux:
  "\<forall>fuel. 0 < fuel \<and> int (length path) + 2 \<le> int fuel + pathPos \<longrightarrow>
     tryMatchPatternPart_fuel fuel ns nodeIdx path pathPos =
       Some (tryMatchPatternPart ns nodeIdx path pathPos)"
  "\<forall>fuel. 0 < fuel \<and> int (length path) + 1 \<le> int fuel + pathPos \<longrightarrow>
     tryEdges_fuel fuel ns currentNode s path pathPos edgeIdx =
       Some (tryEdges ns currentNode s path pathPos edgeIdx)"
proof (induction ns nodeIdx path pathPos and ns currentNode s path pathPos edgeIdx
    rule: tryMatchPatternPart_tryEdges.induct)
  case (1 ns nodeIdx path pathPos)
  show ?case
  proof (intro allI impI)
    fix fuel :: nat
    assume f: "0 < fuel \<and> int (length path) + 2 \<le> int fuel + pathPos"
    then obtain fuel' where fuel: "fuel = Suc fuel'" by (cases fuel) auto
    show "tryMatchPatternPart_fuel fuel ns nodeIdx path pathPos =
        Some (tryMatchPatternPart ns nodeIdx path pathPos)"
    proof (cases "nodeIdx \<noteq> SUCCESS_NODE_IDX \<and> nodeIdx \<noteq> ERROR_NODE_IDX \<and>
        \<not> (pathPos < 0 \<or> int (length path) < pathPos) \<and>
        \<not> (nodeIdx < 0 \<or> int (length ns) \<le> nodeIdx)")
      case False
      then show ?thesis
        unfolding fuel
        by (auto simp: tryMatchPatternPart_fuel.simps tryMatchPatternPart.simps)
    next
      case True
      with f fuel have "0 < fuel' \<and> int (length path) + 1 \<le> int fuel' + pathPos" by auto
      with "1.IH" True
      have "tryEdges_fuel fuel' ns (ns ! nat nodeIdx) (string_at path pathPos) path pathPos 0 =
          Some (tryEdges ns (ns ! nat nodeIdx) (string_at path pathPos) path pathPos 0)"
        by blast
      with True show ?thesis
        unfolding fuel
        by (simp add: tryMatchPatternPart_fuel.simps tryMatchPatternPart.simps)
    qed
  qed
next
  case (2 ns currentNode s path pathPos edgeIdx)
  show ?case
  proof (intro allI impI)
    fix fuel :: nat
    assume f: "0 < fuel \<and> int (length path) + 1 \<le> int fuel + pathPos"
    then have f': "0 < fuel \<and> int (length path) + 2 \<le> int fuel + (pathPos + 1)" by auto
    note L = tryEdges_fuel.simps [of fuel ns currentNode s path pathPos edgeIdx]
    note R = tryEdges.simps [of ns currentNode s path pathPos edgeIdx]
    show "tryEdges_fuel fuel ns currentNode s path pathPos edgeIdx =
        Some (tryEdges ns currentNode s path pathPos edgeIdx)"
    proof (cases "int edgeIdx < edgeCount currentNode")
      case False
      then show ?thesis by (simp add: L R)
    next
      case True
      show ?thesis
      proof (cases "selectEdge currentNode (int edgeIdx) s")
        case None
        with "2.IH"(1) [OF True None] f True show ?thesis by (simp add: L R)
      next
        case (Some nextId)
        from "2.IH"(2) [OF True Some] f'
        have rec: "tryMatchPatternPart_fuel fuel ns nextId path (pathPos + 1) =
            Some (tryMatchPatternPart ns nextId path (pathPos + 1))" by blast
        show ?thesis
        proof (cases "tryMatchPatternPart ns nextId path (pathPos + 1)")
          case (Inl err)
          with rec True Some show ?thesis by (simp add: L R)
        next
          case (Inr b)
          show ?thesis
          proof (cases b)
            case True
            with rec Inr Some \<open>int edgeIdx < edgeCount currentNode\<close> show ?thesis
              by (simp add: L R)
          next
            case False
            then have bF: "b = False" by simp
            with "2.IH"(3) [OF \<open>int edgeIdx < edgeCount currentNode\<close> Some Inr bF] f
              rec Inr Some \<open>int edgeIdx < edgeCount currentNode\<close>
            show ?thesis by (simp add: L R)
          qed
        qed
      qed
    qed
  qed
qed

text \<open>
  C8. \<^verbatim>\<open>tryMatchPatternPart\<close> terminates on every array and path (the function is total:
  each call it makes is at the next position, and a call beyond the end of the path, or
  at a sentinel, makes none), and its recursion is at most \<open>length path + 2 - pathPos\<close>
  activations deep: with that budget, and at least one, the bounded search returns the
  result of the search. From \<^verbatim>\<open>match\<close>, at position 0, the depth is at most the path
  length plus two.
\<close>

theorem recursion_depth_bounded:
  assumes "0 < fuel" and "int (length path) + 2 \<le> int fuel + pathPos"
  shows "tryMatchPatternPart_fuel fuel ns nodeIdx path pathPos =
           Some (tryMatchPatternPart ns nodeIdx path pathPos) \<and>
         tryMatchPatternPart_fuel (length path + 2) ns 0 path 0 =
           Some (tryMatchPatternPart ns 0 path 0)"
proof -
  have "0 < length path + 2 \<and> int (length path) + 2 \<le> int (length path + 2) + 0" by simp
  with fuel_suffices_aux(1) [of path 0 ns 0] fuel_suffices_aux(1) [of path pathPos ns nodeIdx] assms
  show ?thesis by blast
qed

theorem recursion_depth_bounded_witness:
  "(0::nat) < 4 \<and> int (length ''/a'') + 2 \<le> int 4 + 0 \<and>
   tryMatchPatternPart_fuel 4 (setPattern insertion_sort ''/a'' []) 0 ''/a'' 0 = Some (Inr True) \<and>
   tryMatchPatternPart_fuel 3 (setPattern insertion_sort ''/a'' []) 0 ''/a'' 0 = None"
proof -
  have h: "(0::nat) < 4" "int (length ''/a'') + 2 \<le> int 4 + 0" by simp_all
  have ev: "tryMatchPatternPart (setPattern insertion_sort ''/a'' []) 0 ''/a'' 0 = Inr True"
    by code_simp
  have lo: "tryMatchPatternPart_fuel 3 (setPattern insertion_sort ''/a'' []) 0 ''/a'' 0 = None"
    by code_simp
  from recursion_depth_bounded [OF h, of "setPattern insertion_sort ''/a'' []" 0] ev
  have "tryMatchPatternPart_fuel 4 (setPattern insertion_sort ''/a'' []) 0 ''/a'' 0 = Some (Inr True)"
    by simp
  with h lo show ?thesis by blast
qed

section \<open>Matching does not write\<close>

lemma st_is_pure_aux:
  "tryMatchPatternPart_st st nodeIdx pathPos =
     (tryMatchPatternPart (fst st) nodeIdx (snd st) pathPos, st)"
  "tryEdges_st st nodeIdx s pathPos edgeIdx =
     (tryEdges (fst st) (fst st ! nat nodeIdx) s (snd st) pathPos edgeIdx, st)"
proof (induction st nodeIdx pathPos and st nodeIdx s pathPos edgeIdx
    rule: tryMatchPatternPart_st_tryEdges_st.induct)
  case (1 st nodeIdx pathPos)
  then show ?case
    by (simp add: tryMatchPatternPart_st.simps [of st nodeIdx pathPos]
        tryMatchPatternPart.simps [of "fst st" nodeIdx "snd st" pathPos])
next
  case (2 st nodeIdx s pathPos edgeIdx)
  note L = tryEdges_st.simps [of st nodeIdx s pathPos edgeIdx]
  note R = tryEdges.simps [of "fst st" "fst st ! nat nodeIdx" s "snd st" pathPos edgeIdx]
  show ?case
  proof (cases "int edgeIdx < edgeCount (fst st ! nat nodeIdx)")
    case False
    then show ?thesis by (simp add: L R)
  next
    case True
    show ?thesis
    proof (cases "selectEdge (fst st ! nat nodeIdx) (int edgeIdx) s")
      case None
      with "2.IH"(1) [OF True None] True show ?thesis by (simp add: L R)
    next
      case (Some nextId)
      note rec = "2.IH"(2) [OF True Some]
      show ?thesis
      proof (cases "tryMatchPatternPart (fst st) nextId (snd st) (pathPos + 1)")
        case (Inl err)
        with rec True Some show ?thesis by (simp add: L R)
      next
        case (Inr b)
        show ?thesis
        proof (cases b)
          case True
          with Inr rec Some \<open>int edgeIdx < edgeCount (fst st ! nat nodeIdx)\<close>
          show ?thesis by (simp add: L R)
        next
          case False
          then have bF: "b = False" by simp
          from rec Inr
          have eq: "(Inr b, st) = tryMatchPatternPart_st st nextId (pathPos + 1)" by simp
          from "2.IH"(3) [OF True Some eq refl bF] Inr bF rec Some True
          show ?thesis by (simp add: L R)
        qed
      qed
    qed
  qed
qed

lemma match_st_eq: "match_st (ns, path) = (match ns path, (ns, path))"
  by (simp add: match_st_def match_def st_is_pure_aux(1))

text \<open>
  C9. \<^verbatim>\<open>match\<close> with the store passed along returns the store it was given, array and
  path, together with the result of \<open>match\<close>; so a second call, on the store the first
  one left, returns the same result. On the graph of a non-empty pattern and a non-empty
  path the result is a boolean.
\<close>

theorem match_leaves_store_unchanged:
  "snd (match_st (ns, path)) = (ns, path) \<and>
   fst (match_st (snd (match_st (ns, path)))) = fst (match_st (ns, path)) \<and>
   fst (match_st (ns, path)) = match ns path \<and>
   (std_sort_spec srt \<and> pattern \<noteq> [] \<and> path \<noteq> [] \<longrightarrow>
      (\<exists>b. match_st (setPattern srt pattern [], path) = (Inr b, (setPattern srt pattern [], path))))"
proof -
  have "\<exists>b. match_st (setPattern srt pattern [], path) = (Inr b, (setPattern srt pattern [], path))"
    if "std_sort_spec srt" "pattern \<noteq> []" "path \<noteq> []"
  proof -
    let ?g = "setPattern srt pattern []"
    have g: "graph_ok ?g" "0 < length ?g"
      using graph_ok_setPattern [OF that(1,2)] by auto
    from tryMatch_follows [OF g(1) valid_ref_0 [OF g(2)], of path 0]
    obtain b where "tryMatchPatternPart ?g 0 path 0 = Inr b" by blast
    with g(2) that(3) have "match ?g path = Inr b" by (simp add: match_def)
    then show ?thesis by (simp add: match_st_eq)
  qed
  then show ?thesis by (simp add: match_st_eq)
qed

theorem match_leaves_store_unchanged_witness:
  "std_sort_spec insertion_sort \<and> ''/a*b'' \<noteq> [] \<and> ''/ab'' \<noteq> [] \<and>
   match_st (setPattern insertion_sort ''/a*b'' [], ''/ab'') =
     (Inr True, (setPattern insertion_sort ''/a*b'' [], ''/ab''))"
proof -
  have ne: "''/a*b'' \<noteq> []" "''/ab'' \<noteq> []" by simp_all
  have ev: "match (setPattern insertion_sort ''/a*b'' []) ''/ab'' = Inr True" by code_simp
  from match_leaves_store_unchanged [of "setPattern insertion_sort ''/a*b'' []" "''/ab''"
      insertion_sort "''/a*b''"] ev
  have "fst (match_st (setPattern insertion_sort ''/a*b'' [], ''/ab'')) = Inr True"
    "snd (match_st (setPattern insertion_sort ''/a*b'' [], ''/ab'')) =
       (setPattern insertion_sort ''/a*b'' [], ''/ab'')"
    by simp_all
  then have "match_st (setPattern insertion_sort ''/a*b'' [], ''/ab'') =
     (Inr True, (setPattern insertion_sort ''/a*b'' [], ''/ab''))"
    by (metis prod.collapse)
  with ne std_sort_spec_insertion_sort show ?thesis by blast
qed

section \<open>Standardising a pattern\<close>

text \<open>
  C6 (fails on the code). A pattern that ends with the separator but does not start with
  one is prefixed, and the test for the trailing separator then looks at position
  \<open>len - 1\<close> of the prefixed pattern, with \<open>len\<close> the length before the prefix:
  for \<open>ab/\<close> that position holds a star, and nothing is appended. A pattern that starts
  with the separator is not prefixed: \<open>/dir/\<close> becomes \<open>/dir/**\<close>, which matches
  \<open>/dir/anything/at/all\<close>.
\<close>

theorem standardizePattern_stale_length:
  "standardizePattern ''ab/'' = ''/**/ab/'' \<and>
   standardizePattern ''/dir/'' = ''/dir/**'' \<and>
   match (setPattern insertion_sort (standardizePattern ''/dir/'') []) ''/dir/anything/at/all'' =
     Inr True"
proof -
  have "standardizePattern ''ab/'' = ''/**/ab/''"
    by (simp add: standardizePattern_def symbolIs_def string_at_def PATH_SEPARATOR_def
        END_OF_LINE_def Let_def)
  moreover have "standardizePattern ''/dir/'' = ''/dir/**''"
    by (simp add: standardizePattern_def symbolIs_def string_at_def PATH_SEPARATOR_def
        END_OF_LINE_def Let_def)
  moreover have "match (setPattern insertion_sort (standardizePattern ''/dir/'') [])
      ''/dir/anything/at/all'' = Inr True"
    by code_simp
  ultimately show ?thesis by blast
qed

end
